theory Spec2Isabelle
  imports Main "HOL-Library.Word"
begin

unbundle bit_operations_syntax

section \<open>Functions/byteSwap.cpp\<close>

text \<open>
  The scalar function \<^verbatim>\<open>byteSwap\<close> has three overloads: for the built-in integral
  types it is \<^verbatim>\<open>std::byteswap\<close>, for the wide types (U)Int128 and (U)Int256 it copies the
  object with \<^verbatim>\<open>reverseMemcpy\<close>, and for every other type it throws NOT_IMPLEMENTED.
  A value of a \<open>w\<close>-bit integer type is a \<open>w word\<close>; signed and unsigned types of one
  width share their object representation, so one word type stands for both.
\<close>

type_synonym byte = "8 word"

text \<open>The object representation of a value: its \<open>sizeof\<close> bytes, lowest address first.\<close>

definition to_bytes :: "'a::len word \<Rightarrow> byte list" where
  "to_bytes x = map (\<lambda>i. ucast (drop_bit (8 * i) x)) [0..<LENGTH('a) div 8]"

fun from_bytes :: "byte list \<Rightarrow> 'a::len word" where
  "from_bytes [] = 0"
| "from_bytes (b # bs) = ucast b OR push_bit 8 (from_bytes bs)"

text \<open>\<^verbatim>\<open>std::byteswap\<close> of the C++ standard library: the bytes of the value, reversed.\<close>

definition std_byteswap :: "'a::len word \<Rightarrow> 'a word" where
  "std_byteswap x = from_bytes (rev (to_bytes x))"

text \<open>
  \<^verbatim>\<open>reverseMemcpy(dst, src, size)\<close> is declared outside the files at hand; it is taken by
  its name and its use here: the first \<open>n\<close> bytes of the source, in reverse order.
\<close>

definition reverseMemcpy :: "byte list \<Rightarrow> nat \<Rightarrow> byte list" where
  "reverseMemcpy src n = rev (take n src)"

text \<open>The overload for the built-in integral types (8, 16, 32 and 64 bits).\<close>

definition byteSwap :: "'a::len word \<Rightarrow> 'a word" where
  "byteSwap x = std_byteswap x"

text \<open>The overload for UInt128, Int128, UInt256 and Int256; \<open>sizeof(T)\<close> is the width in bytes.\<close>

definition byteSwap_wide :: "'a::len word \<Rightarrow> 'a word" where
  "byteSwap_wide x = from_bytes (reverseMemcpy (to_bytes x) (LENGTH('a) div 8))"

section \<open>Processors/Formats/Impl/ParallelFormattingOutputFormat.h\<close>

subsection \<open>Data\<close>

text \<open>
  \<^verbatim>\<open>size_t\<close> is 64 bits wide. The counters that only ever grow by one per chunk (unit
  numbers, row counts, the bookkeeping counters below) are natural numbers: no run reaches
  \<open>2 ^ 64\<close> of them. Where a \<^verbatim>\<open>size_t\<close> comes from the configuration and enters
  arithmetic, it is a word and the addition wraps.
\<close>

type_synonym size_t = "64 word"

text \<open>A chunk is opaque to the class: a number of rows and a payload.\<close>

datatype Chunk = Chunk (getNumRows: nat) (columns: "byte list")

definition empty_Chunk :: Chunk where
  "empty_Chunk = Chunk 0 []"

datatype ErrorCode = NOT_IMPLEMENTED | OTHER_ERROR int

datatype Exception = Exception (code: ErrorCode) (message: string)

text \<open>
  A call returns, throws (the state is the one at the throw), blocks on a condition
  variable that nothing in the state at hand will signal, or has no defined behaviour
  (\<^verbatim>\<open>std::rethrow_exception\<close> of a null pointer).
\<close>

datatype 's outcome = Return 's | Throw Exception 's | Waits | Undefined_Behaviour

text \<open>The outcome without the state: what the caller sees of the call.\<close>

fun signal :: "'s outcome \<Rightarrow> unit outcome" where
  "signal (Return s) = Return ()"
| "signal (Throw e s) = Throw e ()"
| "signal Waits = Waits"
| "signal Undefined_Behaviour = Undefined_Behaviour"

text \<open>The statements after a call run only when it returns.\<close>

definition and_then :: "'s outcome \<Rightarrow> ('s \<Rightarrow> 's) \<Rightarrow> 's outcome" where
  "and_then r f =
     (case r of Return s \<Rightarrow> Return (f s) | Throw e s \<Rightarrow> Throw e s
      | Waits \<Rightarrow> Waits | Undefined_Behaviour \<Rightarrow> Undefined_Behaviour)"

datatype ProcessingUnitStatus = READY_TO_INSERT | READY_TO_FORMAT | READY_TO_READ

datatype ProcessingUnitType = START | PLAIN | PLAIN_FINISH | TOTALS | EXTREMES | FINALIZE

text \<open>
  \<^verbatim>\<open>Statistics\<close> is declared by the base class \<^verbatim>\<open>IOutputFormat\<close>; these are the members the
  header reads and writes.
\<close>

record Statistics =
  totals :: Chunk
  extremes :: Chunk
  rows_before_limit :: nat
  applied_limit :: bool
  rows_before_aggregation :: nat
  applied_aggregation :: bool

definition empty_Statistics :: Statistics where
  "empty_Statistics =
     \<lparr>totals = empty_Chunk, extremes = empty_Chunk, rows_before_limit = 0,
      applied_limit = False, rows_before_aggregation = 0, applied_aggregation = False\<rparr>"

record ProcessingUnit =
  status :: ProcessingUnitStatus
  unit_type :: ProcessingUnitType
  chunk :: Chunk
  segment :: "byte list"
  actual_memory_size :: nat
  unit_statistics :: Statistics
  rows_num :: nat

text \<open>A unit as \<^verbatim>\<open>processing_units.resize\<close> creates it (value-initialised).\<close>

definition new_ProcessingUnit :: ProcessingUnit where
  "new_ProcessingUnit =
     \<lparr>status = READY_TO_INSERT, unit_type = START, chunk = empty_Chunk, segment = [],
      actual_memory_size = 0, unit_statistics = empty_Statistics, rows_num = 0\<rparr>"

text \<open>
  The formatter that \<^verbatim>\<open>internal_formatter_creator\<close> returns: the two capabilities the header
  queries, and the bytes each of its methods writes to its buffer.
\<close>

record InternalFormatter =
  areTotalsAndExtremesUsedInFinalize :: bool
  supportsWritingException :: bool
  writePrefix_bytes :: "byte list"
  consume_bytes :: "Chunk \<Rightarrow> byte list"
  writeSuffix_bytes :: "byte list"
  consumeTotals_bytes :: "Chunk \<Rightarrow> byte list"
  consumeExtremes_bytes :: "Chunk \<Rightarrow> byte list"
  finalize_bytes :: "Statistics \<Rightarrow> byte list"

record Params =
  internal_formatter_creator :: InternalFormatter
  max_threads_for_parallel_formatting :: size_t

text \<open>
  The members of the class. \<open>out\<close>, \<open>auto_flush\<close> and \<open>statistics\<close> are the base class's.
  Four counters record effects that leave no other trace in a sequential model: how often
  the formatter factory was called, how often each mutex was taken, and how often each
  condition variable was notified.
\<close>

record ParallelFormattingOutputFormat =
  out :: "byte list"
  auto_flush :: bool
  statistics :: Statistics
  internal_formatter_creator_calls :: nat
  need_flush :: bool
  background_exception :: "Exception option"
  processing_units :: "ProcessingUnit list"
  mutex_locked :: nat
  emergency_stop :: bool
  collector_unit_number :: nat
  writer_unit_number :: nat
  collector_condvar_notified :: nat
  writer_condvar_notified :: nat
  rows_consumed :: nat
  rows_collected :: nat
  are_totals_written :: bool
  statistics_mutex_locked :: nat
  save_totals_and_extremes_in_statistics :: bool
  exception_message :: string
  exception_is_rethrown :: bool
  started_prefix :: bool
  collected_prefix :: bool
  started_suffix :: bool
  collected_suffix :: bool
  collected_finalize :: bool

type_synonym 'm Format = "'m ParallelFormattingOutputFormat_scheme"

subsection \<open>Member functions defined in the header\<close>

definition construct :: "Params \<Rightarrow> ParallelFormattingOutputFormat" where
  "construct params =
     \<lparr>out = [], auto_flush = False, statistics = empty_Statistics,
      internal_formatter_creator_calls = 1,
      need_flush = False, background_exception = None,
      processing_units =
        replicate (unat (min (max_threads_for_parallel_formatting params + 2) (1024 :: size_t)))
          new_ProcessingUnit,
      mutex_locked = 0,
      emergency_stop = False, collector_unit_number = 0, writer_unit_number = 0,
      collector_condvar_notified = 0, writer_condvar_notified = 0,
      rows_consumed = 0, rows_collected = 0, are_totals_written = False,
      statistics_mutex_locked = 0,
      save_totals_and_extremes_in_statistics =
        areTotalsAndExtremesUsedInFinalize (internal_formatter_creator params),
      exception_message = [], exception_is_rethrown = False,
      started_prefix = False, collected_prefix = False, started_suffix = False,
      collected_suffix = False, collected_finalize = False\<rparr>"

definition flushImpl :: "'m Format \<Rightarrow> 'm Format" where
  "flushImpl s = (if \<not> auto_flush s then s\<lparr>need_flush := True\<rparr> else s)"

definition setException :: "string \<Rightarrow> 'm Format \<Rightarrow> 'm Format" where
  "setException exception_message' s = s\<lparr>exception_message := exception_message'\<rparr>"

definition resetFormatterImpl :: "'m Format \<Rightarrow> 'm Format outcome" where
  "resetFormatterImpl s =
     Throw (Exception NOT_IMPLEMENTED
       ''Method resetFormatterImpl is not implemented for parallel formatting'') s"

text \<open>\<^verbatim>\<open>std::current_exception()\<close> is the argument.\<close>

definition onBackgroundException :: "Exception \<Rightarrow> 'm Format \<Rightarrow> 'm Format" where
  "onBackgroundException current_exception s =
     (let s1 = s\<lparr>mutex_locked := mutex_locked s + 1\<rparr>;
          s2 = (if background_exception s1 = None
                then s1\<lparr>background_exception := Some current_exception\<rparr> else s1);
          s3 = s2\<lparr>emergency_stop := True\<rparr>;
          s4 = s3\<lparr>writer_condvar_notified := writer_condvar_notified s3 + 1\<rparr>
      in s4\<lparr>collector_condvar_notified := collector_condvar_notified s4 + 1\<rparr>)"

definition rethrowBackgroundException :: "'m Format \<Rightarrow> 'm Format outcome" where
  "rethrowBackgroundException s =
     (if \<not> exception_is_rethrown s then
        (let s1 = s\<lparr>exception_is_rethrown := True\<rparr>
         in case background_exception s1 of
              None \<Rightarrow> Undefined_Behaviour
            | Some e \<Rightarrow> Throw e s1)
      else Return s)"

definition setRowsBeforeLimit :: "nat \<Rightarrow> 'm Format \<Rightarrow> 'm Format" where
  "setRowsBeforeLimit n s =
     s\<lparr>statistics_mutex_locked := statistics_mutex_locked s + 1,
       statistics := (statistics s)\<lparr>rows_before_limit := n, applied_limit := True\<rparr>\<rparr>"

definition setRowsBeforeAggregation :: "nat \<Rightarrow> 'm Format \<Rightarrow> 'm Format" where
  "setRowsBeforeAggregation n s =
     s\<lparr>statistics_mutex_locked := statistics_mutex_locked s + 1,
       statistics := (statistics s)\<lparr>rows_before_aggregation := n, applied_aggregation := True\<rparr>\<rparr>"

text \<open>
  \<^verbatim>\<open>addChunk\<close> is declared in the header and defined elsewhere. The member functions that
  call it take it as an argument: chunk, type and \<^verbatim>\<open>can_throw_exception\<close>, then the state.
\<close>

type_synonym 'm addChunk =
  "Chunk \<Rightarrow> ProcessingUnitType \<Rightarrow> bool \<Rightarrow> 'm Format \<Rightarrow> 'm Format outcome"

definition writePrefix :: "'m addChunk \<Rightarrow> 'm Format \<Rightarrow> 'm Format outcome" where
  "writePrefix addChunk s =
     and_then (addChunk empty_Chunk START True s) (\<lambda>s'. s'\<lparr>started_prefix := True\<rparr>)"

definition writeSuffix :: "'m addChunk \<Rightarrow> 'm Format \<Rightarrow> 'm Format outcome" where
  "writeSuffix addChunk s =
     and_then (addChunk empty_Chunk PLAIN_FINISH True s) (\<lambda>s'. s'\<lparr>started_suffix := True\<rparr>)"

definition consume :: "'m addChunk \<Rightarrow> Chunk \<Rightarrow> 'm Format \<Rightarrow> 'm Format outcome" where
  "consume addChunk chunk' s = addChunk chunk' PLAIN True s"



subsection \<open>Successive calls of the exception path\<close>

text \<open>
  What reaches the exception cell after an error: the caller's thread comes along the
  rethrow path (once per interaction that may throw), and background threads report further
  errors. The trace lists the outcome of each call of the rethrow path, in order; a caller
  that catches the exception goes on using the object.
\<close>

datatype event = Caller_rethrow | Background_report Exception

fun rethrow_trace :: "event list \<Rightarrow> 'm Format \<Rightarrow> 'm Format outcome list" where
  "rethrow_trace [] s = []"
| "rethrow_trace (Background_report e # evs) s = rethrow_trace evs (onBackgroundException e s)"
| "rethrow_trace (Caller_rethrow # evs) s =
     (case rethrowBackgroundException s of
        Return s' \<Rightarrow> Return s' # rethrow_trace evs s'
      | Throw e s' \<Rightarrow> Throw e s' # rethrow_trace evs s'
      | Waits \<Rightarrow> [Waits]
      | Undefined_Behaviour \<Rightarrow> [Undefined_Behaviour])"

section \<open>The ring, its producer, its formatter tasks and its collector\<close>

text \<open>
  The header declares \<^verbatim>\<open>addChunk\<close>, \<^verbatim>\<open>formatterThreadFunction\<close>, \<^verbatim>\<open>collectorThreadFunction\<close>,
  \<^verbatim>\<open>finalizeImpl\<close> and \<^verbatim>\<open>finishAndWait\<close>; their bodies are not in the header. The
  definitions of this section follow the specification's description of them (its sections
  4.1 to 4.4), one definition per numbered step that touches shared state. The threads are
  interleaved at these steps: a run is a list of actions, each the next step of one thread.
  The specification's statuses FREE, FORMATTING and READY are the header's
  \<^verbatim>\<open>READY_TO_INSERT\<close>, \<^verbatim>\<open>READY_TO_FORMAT\<close> and \<^verbatim>\<open>READY_TO_READ\<close>; its \<open>writer_ticket\<close> and
  \<open>collector_ticket\<close> are \<^verbatim>\<open>writer_unit_number\<close> and \<^verbatim>\<open>collector_unit_number\<close>.
\<close>

text \<open>
  Modelled from the spec: where the caller's thread stands inside \<^verbatim>\<open>add_chunk\<close> (4.1). It is
  outside any call; or its wait has passed for the chunk and kind it holds (steps 1 to 3);
  or it has filled the slot (steps 4 and 5, remembering \<open>first_row_num\<close>); or it has
  incremented \<open>writer_ticket\<close> (step 6) and is about to submit the task (step 7).
\<close>

datatype producer_pc = Outside | Passed Chunk ProcessingUnitType | Claimed nat | Incremented nat

text \<open>
  Modelled from the spec: where the collector thread stands in its loop (4.3). It waits for
  its slot (steps 1 to 3); or it has appended the slot's bytes (steps 4 to 6); or it has
  done the flush of step 7; or it has released the slot (step 8) and is about to increment
  \<open>collector_ticket\<close> (step 9); or it has left the loop.
\<close>

datatype collector_pc = Waiting | Appended | Flushed | Released | Exited

text \<open>
  Modelled from the spec: a formatter task of the thread pool (4.2), bound to a ticket and
  carrying \<open>first_row_num\<close>: submitted and not yet run, or past step 5 (the bytes are in the
  slot) and before step 6 (the slot is not yet published).
\<close>

datatype task = Scheduled nat | Formatted nat

text \<open>
  Modelled from the spec: the instance together with its threads. \<open>pool\<close> maps a ticket to
  its pending task; \<open>collector_finished\<close> is the event the collector signals; \<open>out_flushed\<close>
  counts the flushes of the sink. \<open>tickets\<close> is a history that no thread reads: the kind and
  chunk of every ticket in the order the producer claimed them, each with the statistics
  at that moment. It is the input sequence the output is compared with.
\<close>

record system = ParallelFormattingOutputFormat +
  producer :: producer_pc
  collector :: collector_pc
  pool :: "nat \<Rightarrow> task option"
  collector_finished :: bool
  out_flushed :: nat
  tickets :: "(ProcessingUnitType \<times> Chunk \<times> Statistics) list"

text \<open>
  The state the constructor leaves: the object of \<open>construct\<close>, the caller outside
  \<^verbatim>\<open>add_chunk\<close>, the collector thread started and waiting, no task, no ticket.
\<close>

definition start :: "Params \<Rightarrow> system" where
  "start params =
     ParallelFormattingOutputFormat.extend (construct params)
       (system.fields Outside Waiting (\<lambda>t. None) False 0 [])"

text \<open>Modelled from the spec: the slot of ticket \<open>t\<close> is \<open>slots[t mod N]\<close> (section 3, Ring).\<close>

definition unit_at :: "ProcessingUnit list \<Rightarrow> nat \<Rightarrow> ProcessingUnit" where
  "unit_at units t = units ! (t mod length units)"

text \<open>Modelled from the spec: writing the slot of ticket \<open>t\<close>.\<close>

definition put_unit :: "nat \<Rightarrow> ProcessingUnit \<Rightarrow> ProcessingUnit list \<Rightarrow> ProcessingUnit list" where
  "put_unit t u units = units[t mod length units := u]"

text \<open>Modelled from the spec: the slot of ticket \<open>t\<close> in a state.\<close>

definition unit_of :: "system \<Rightarrow> nat \<Rightarrow> ProcessingUnit" where
  "unit_of s t = unit_at (processing_units s) t"

text \<open>Modelled from the spec: the state with the slot of ticket \<open>t\<close> replaced.\<close>

definition set_unit :: "nat \<Rightarrow> ProcessingUnit \<Rightarrow> system \<Rightarrow> system" where
  "set_unit t u s = s\<lparr>processing_units := put_unit t u (processing_units s)\<rparr>"

subsection \<open>Producer: \<^verbatim>\<open>add_chunk\<close>\<close>

text \<open>
  Modelled from the spec: \<^verbatim>\<open>add_chunk\<close>, steps 1 to 3 of 4.1. The call waits until its slot
  is FREE or \<open>emergency_stop\<close> is set. Under \<open>emergency_stop\<close> it rethrows the background
  exception along \<^verbatim>\<open>rethrowBackgroundException\<close> when it may throw, and returns without
  enqueuing in either case; the caller's thread is outside again. Otherwise, with the slot
  FREE, the wait has passed. There is no step while the slot is busy (the call waits), none
  where the rethrow has no defined behaviour, and none once a FINALIZE ticket was produced
  (the contract of 4.1 leaves such a call undefined).
\<close>

definition addChunk_enter :: "Chunk \<Rightarrow> ProcessingUnitType \<Rightarrow> bool \<Rightarrow> system \<Rightarrow> system option" where
  "addChunk_enter c k can_throw s =
     (if producer s \<noteq> Outside then None
      else if emergency_stop s then
        (if can_throw then
           (case rethrowBackgroundException s of
              Return s' \<Rightarrow> Some s' | Throw e s' \<Rightarrow> Some s'
            | Waits \<Rightarrow> None | Undefined_Behaviour \<Rightarrow> None)
         else Some s)
      else if status (unit_of s (writer_unit_number s)) = READY_TO_INSERT
              \<and> FINALIZE \<notin> fst ` set (tickets s)
      then Some (s\<lparr>producer := Passed c k\<rparr>)
      else None)"

text \<open>
  Modelled from the spec: the slot after step 4 of 4.1: the chunk moved in, the kind
  recorded, the status FORMATTING; the chunk's row count is the slot's \<open>rows_num\<close>.
\<close>

definition claimed_unit :: "Chunk \<Rightarrow> ProcessingUnitType \<Rightarrow> system \<Rightarrow> ProcessingUnit" where
  "claimed_unit c k s =
     (unit_of s (writer_unit_number s))
       \<lparr>chunk := c, unit_type := k, status := READY_TO_FORMAT, rows_num := getNumRows c\<rparr>"

text \<open>
  Modelled from the spec: steps 4 and 5 of 4.1: the slot is filled, \<open>first_row_num\<close> is the
  number of rows consumed so far, and \<open>rows_consumed\<close> grows by the chunk's rows. The
  ticket joins the history.
\<close>

definition addChunk_claim :: "Chunk \<Rightarrow> ProcessingUnitType \<Rightarrow> system \<Rightarrow> system" where
  "addChunk_claim c k s =
     (set_unit (writer_unit_number s) (claimed_unit c k s) s)
       \<lparr>rows_consumed := rows_consumed s + getNumRows c,
        producer := Claimed (rows_consumed s),
        tickets := tickets s @ [(k, c, statistics s)]\<rparr>"

text \<open>Modelled from the spec: step 6 of 4.1, the increment of \<open>writer_ticket\<close>.\<close>

definition addChunk_increment :: "nat \<Rightarrow> system \<Rightarrow> system" where
  "addChunk_increment first_row_num s =
     s\<lparr>writer_unit_number := writer_unit_number s + 1, producer := Incremented first_row_num\<rparr>"

text \<open>
  Modelled from the spec: step 7 of 4.1: the task for the ticket just assigned is submitted
  to the pool, and the call returns.
\<close>

definition addChunk_submit :: "nat \<Rightarrow> system \<Rightarrow> system" where
  "addChunk_submit first_row_num s =
     s\<lparr>pool := (pool s)(writer_unit_number s - 1 \<mapsto> Scheduled first_row_num),
       producer := Outside\<rparr>"

text \<open>
  Modelled from the spec: the error condition of 4.1: the pool refuses the task; the error
  is captured as the background exception and thrown to the caller.
\<close>

definition addChunk_submit_fails :: "Exception \<Rightarrow> system \<Rightarrow> system" where
  "addChunk_submit_fails e s = (onBackgroundException e s)\<lparr>producer := Outside\<rparr>"

text \<open>
  Modelled from the spec: a whole call of \<^verbatim>\<open>add_chunk\<close> (4.1) with no step of another thread
  in between: the outcome the caller sees. The first argument is the answer of the thread
  pool at step 7: \<open>None\<close> when it accepts the task, the error when it refuses it. Under
  \<open>emergency_stop\<close> (step 3) the call rethrows along \<^verbatim>\<open>rethrowBackgroundException\<close> when it may
  throw, and returns without enqueuing otherwise. With the slot busy and no emergency stop
  the call waits (step 2). With the slot FREE the slot is filled and the counter
  incremented (steps 4 to 6); then the task is submitted and the call returns, or the pool
  refuses it and the error is captured and thrown (error condition of 4.1).
\<close>

definition addChunk ::
  "Exception option \<Rightarrow> Chunk \<Rightarrow> ProcessingUnitType \<Rightarrow> bool \<Rightarrow> system \<Rightarrow> system outcome" where
  "addChunk refusal c k can_throw s =
     (if emergency_stop s then
        (if can_throw then rethrowBackgroundException s else Return s)
      else if status (unit_of s (writer_unit_number s)) = READY_TO_INSERT then
        (let s' = addChunk_increment (rows_consumed s) (addChunk_claim c k s)
         in case refusal of
              None \<Rightarrow> Return (addChunk_submit (rows_consumed s) s')
            | Some e \<Rightarrow> Throw e (addChunk_submit_fails e s'))
      else Waits)"

subsection \<open>Formatter task\<close>

text \<open>
  Modelled from the spec: step 4 of 4.2: the method of the fresh inner formatter that the
  slot's kind selects, and the bytes it writes; only \<^verbatim>\<open>finalize\<close> reads the statistics.
\<close>

definition format_one ::
  "InternalFormatter \<Rightarrow> ProcessingUnitType \<Rightarrow> Chunk \<Rightarrow> Statistics \<Rightarrow> byte list" where
  "format_one f k c st =
     (case k of
        START \<Rightarrow> writePrefix_bytes f
      | PLAIN \<Rightarrow> consume_bytes f c
      | PLAIN_FINISH \<Rightarrow> writeSuffix_bytes f
      | TOTALS \<Rightarrow> consumeTotals_bytes f c
      | EXTREMES \<Rightarrow> consumeExtremes_bytes f c
      | FINALIZE \<Rightarrow> finalize_bytes f st)"

text \<open>
  Modelled from the spec: the slot after steps 1 to 5 of 4.2. A FINALIZE slot takes a
  snapshot of the statistics first. The bytes go to the front of the slot's buffer, which
  keeps what it held beyond them, and \<open>bytes_len\<close> (\<^verbatim>\<open>actual_memory_size\<close>) is their number.
\<close>

definition formatted_unit :: "InternalFormatter \<Rightarrow> system \<Rightarrow> nat \<Rightarrow> ProcessingUnit" where
  "formatted_unit f s t =
     (let u = unit_of s t;
          snapshot = (if unit_type u = FINALIZE then statistics s else unit_statistics u);
          bytes = format_one f (unit_type u) (chunk u) snapshot
      in u\<lparr>unit_statistics := snapshot,
            segment := bytes @ drop (length bytes) (segment u),
            actual_memory_size := length bytes\<rparr>)"

text \<open>
  Modelled from the spec: steps 1 to 5 of 4.2 for the task of ticket \<open>t\<close>: a fresh inner
  formatter is created, the statistics mutex is taken for a FINALIZE slot, the slot is
  formatted.
\<close>

definition format_unit :: "InternalFormatter \<Rightarrow> nat \<Rightarrow> nat \<Rightarrow> system \<Rightarrow> system" where
  "format_unit f t first_row_num s =
     (let s1 = s\<lparr>internal_formatter_creator_calls := internal_formatter_creator_calls s + 1\<rparr>;
          s2 = (if unit_type (unit_of s t) = FINALIZE
                then s1\<lparr>statistics_mutex_locked := statistics_mutex_locked s1 + 1\<rparr> else s1)
      in (set_unit t (formatted_unit f s t) s2)\<lparr>pool := (pool s2)(t \<mapsto> Formatted first_row_num)\<rparr>)"

text \<open>
  Modelled from the spec: step 6 of 4.2: the slot becomes READY, the collector's condition
  variable is notified, the task is done.
\<close>

definition publish_unit :: "nat \<Rightarrow> system \<Rightarrow> system" where
  "publish_unit t s =
     (set_unit t ((unit_of s t)\<lparr>status := READY_TO_READ\<rparr>) s)
       \<lparr>collector_condvar_notified := collector_condvar_notified s + 1,
        pool := (pool s)(t := None)\<rparr>"

text \<open>
  Modelled from the spec: step 7 of 4.2: the task caught an error; it reports it and ends
  without making the slot READY.
\<close>

definition fail_unit :: "nat \<Rightarrow> Exception \<Rightarrow> system \<Rightarrow> system" where
  "fail_unit t e s = (onBackgroundException e s)\<lparr>pool := (pool s)(t := None)\<rparr>"

subsection \<open>Collector\<close>

text \<open>
  Modelled from the spec: steps 1 to 3 of 4.3: the collector's wait has passed and it goes
  on to append: its slot is READY and \<open>emergency_stop\<close> is not set.
\<close>

definition collector_ready :: "system \<Rightarrow> bool" where
  "collector_ready s \<longleftrightarrow>
     collector s = Waiting \<and> \<not> emergency_stop s \<and>
     status (unit_of s (collector_unit_number s)) = READY_TO_READ"

text \<open>
  Modelled from the spec: steps 4 to 6 of 4.3: the first \<open>bytes_len\<close> bytes of the slot are
  appended to the sink, the rows are counted, and the flag of the slot's kind is set. After
  a FINALIZE slot the collector signals \<open>collector_finished\<close> and leaves the loop.
\<close>

definition collect_append :: "system \<Rightarrow> system" where
  "collect_append s =
     (let u = unit_of s (collector_unit_number s);
          s1 = s\<lparr>out := out s @ take (actual_memory_size u) (segment u),
                 rows_collected := rows_collected s + rows_num u\<rparr>
      in case unit_type u of
           START \<Rightarrow> s1\<lparr>collected_prefix := True, collector := Appended\<rparr>
         | PLAIN_FINISH \<Rightarrow> s1\<lparr>collected_suffix := True, collector := Appended\<rparr>
         | FINALIZE \<Rightarrow>
             s1\<lparr>collected_finalize := True, collector_finished := True, collector := Exited\<rparr>
         | _ \<Rightarrow> s1\<lparr>collector := Appended\<rparr>)"

text \<open>
  Modelled from the spec: a sink error (section 7) in step 4 of 4.3: the write fails after
  \<open>n\<close> bytes of the segment; the collector reports the error, signals \<open>collector_finished\<close>
  and ends.
\<close>

definition collect_fails :: "nat \<Rightarrow> Exception \<Rightarrow> system \<Rightarrow> system" where
  "collect_fails n e s =
     (let u = unit_of s (collector_unit_number s);
          s1 = s\<lparr>out := out s @ take n (take (actual_memory_size u) (segment u))\<rparr>
      in (onBackgroundException e s1)\<lparr>collector_finished := True, collector := Exited\<rparr>)"

text \<open>
  Modelled from the spec: step 3 of 4.3 and its termination case (b): the collector sees
  \<open>emergency_stop\<close> while waiting, signals \<open>collector_finished\<close> and leaves the loop.
\<close>

definition collect_stop :: "system \<Rightarrow> system" where
  "collect_stop s = s\<lparr>collector_finished := True, collector := Exited\<rparr>"

text \<open>Modelled from the spec: step 7 of 4.3: a requested flush is done and the flag cleared.\<close>

definition collect_flush :: "system \<Rightarrow> system" where
  "collect_flush s =
     (if need_flush s
      then s\<lparr>out_flushed := out_flushed s + 1, need_flush := False, collector := Flushed\<rparr>
      else s\<lparr>collector := Flushed\<rparr>)"

text \<open>
  Modelled from the spec: step 8 of 4.3: the slot becomes FREE and the writer's condition
  variable is notified.
\<close>

definition collect_release :: "system \<Rightarrow> system" where
  "collect_release s =
     (set_unit (collector_unit_number s)
        ((unit_of s (collector_unit_number s))\<lparr>status := READY_TO_INSERT\<rparr>) s)
       \<lparr>writer_condvar_notified := writer_condvar_notified s + 1, collector := Released\<rparr>"

text \<open>Modelled from the spec: step 9 of 4.3, the increment of \<open>collector_ticket\<close>.\<close>

definition collect_increment :: "system \<Rightarrow> system" where
  "collect_increment s =
     s\<lparr>collector_unit_number := collector_unit_number s + 1, collector := Waiting\<rparr>"

subsection \<open>Other calls, and runs\<close>

text \<open>
  Modelled from the spec: any write to the shared statistics under its mutex:
  \<^verbatim>\<open>consume_totals\<close> and \<^verbatim>\<open>consume_extremes\<close> in statistics mode, the row-count hints.
\<close>

definition update_statistics :: "Statistics \<Rightarrow> system \<Rightarrow> system" where
  "update_statistics st s =
     s\<lparr>statistics_mutex_locked := statistics_mutex_locked s + 1, statistics := st\<rparr>"

text \<open>
  Modelled from the spec: steps 1 and 2 of \<^verbatim>\<open>finish_and_wait\<close> (4.4), which \<^verbatim>\<open>on_cancel\<close> and
  the destructor run: \<open>emergency_stop\<close> is set and both condition variables are notified.
\<close>

definition finishAndWait_stop :: "system \<Rightarrow> system" where
  "finishAndWait_stop s =
     s\<lparr>emergency_stop := True,
       writer_condvar_notified := writer_condvar_notified s + 1,
       collector_condvar_notified := collector_condvar_notified s + 1\<rparr>"

text \<open>
  Modelled from the spec: the steps of all threads. The first five are the caller's inside
  \<^verbatim>\<open>add_chunk\<close>, the next three a formatter task's, the next six the collector's, the last
  three calls of \<^verbatim>\<open>flush\<close>, of a statistics update and of \<^verbatim>\<open>on_cancel\<close>.
\<close>

datatype action =
    Enter_addChunk Chunk ProcessingUnitType bool
  | Claim
  | Increment
  | Submit
  | Submit_fails Exception
  | Format nat
  | Publish nat
  | Fail nat Exception
  | Append
  | Append_fails nat Exception
  | Stop
  | Flush
  | Release
  | Advance
  | Call_flush
  | Call_statistics Statistics
  | Cancel

text \<open>
  Modelled from the spec: the state after an action, or \<open>None\<close> where the thread cannot take
  that step in the state at hand. Any pending task may run at any time, so every number of
  worker threads is covered. The caller flushes only between its calls of \<^verbatim>\<open>add_chunk\<close>, and
  the statistics are not written after the FINALIZE ticket (nothing is accepted after it).
\<close>

fun step :: "InternalFormatter \<Rightarrow> action \<Rightarrow> system \<Rightarrow> system option" where
  "step f (Enter_addChunk c k can_throw) s = addChunk_enter c k can_throw s"
| "step f Claim s =
     (case producer s of Passed c k \<Rightarrow> Some (addChunk_claim c k s) | _ \<Rightarrow> None)"
| "step f Increment s =
     (case producer s of Claimed r \<Rightarrow> Some (addChunk_increment r s) | _ \<Rightarrow> None)"
| "step f Submit s =
     (case producer s of Incremented r \<Rightarrow> Some (addChunk_submit r s) | _ \<Rightarrow> None)"
| "step f (Submit_fails e) s =
     (case producer s of Incremented r \<Rightarrow> Some (addChunk_submit_fails e s) | _ \<Rightarrow> None)"
| "step f (Format t) s =
     (case pool s t of Some (Scheduled r) \<Rightarrow> Some (format_unit f t r s) | _ \<Rightarrow> None)"
| "step f (Publish t) s =
     (case pool s t of Some (Formatted r) \<Rightarrow> Some (publish_unit t s) | _ \<Rightarrow> None)"
| "step f (Fail t e) s =
     (case pool s t of Some task \<Rightarrow> Some (fail_unit t e s) | None \<Rightarrow> None)"
| "step f Append s = (if collector_ready s then Some (collect_append s) else None)"
| "step f (Append_fails n e) s = (if collector_ready s then Some (collect_fails n e s) else None)"
| "step f Stop s =
     (if collector s = Waiting \<and> emergency_stop s then Some (collect_stop s) else None)"
| "step f Flush s = (if collector s = Appended then Some (collect_flush s) else None)"
| "step f Release s = (if collector s = Flushed then Some (collect_release s) else None)"
| "step f Advance s = (if collector s = Released then Some (collect_increment s) else None)"
| "step f Call_flush s = (if producer s = Outside then Some (flushImpl s) else None)"
| "step f (Call_statistics st) s =
     (if FINALIZE \<notin> fst ` set (tickets s) then Some (update_statistics st s) else None)"
| "step f Cancel s = Some (finishAndWait_stop s)"

text \<open>
  Modelled from the spec: a step of the instance. With an empty ring (a configuration
  whose \<open>max_workers + 2\<close> wraps to 0) the slot index \<open>t mod N\<close> is a division by zero, and
  nothing is defined.
\<close>

definition fire :: "InternalFormatter \<Rightarrow> action \<Rightarrow> system \<Rightarrow> system option" where
  "fire f a s = (if processing_units s = [] then None else step f a s)"

text \<open>Modelled from the spec: a run, action after action; \<open>None\<close> when one cannot be taken.\<close>

fun run :: "InternalFormatter \<Rightarrow> action list \<Rightarrow> system \<Rightarrow> system option" where
  "run f [] s = Some s"
| "run f (a # as) s = (case fire f a s of None \<Rightarrow> None | Some s' \<Rightarrow> run f as s')"

text \<open>
  Modelled from the spec: the strict cycle of a slot's status (section 3):
  FREE, FORMATTING, READY and FREE again.
\<close>

fun next_status :: "ProcessingUnitStatus \<Rightarrow> ProcessingUnitStatus" where
  "next_status READY_TO_INSERT = READY_TO_FORMAT"
| "next_status READY_TO_FORMAT = READY_TO_READ"
| "next_status READY_TO_READ = READY_TO_INSERT"

text \<open>Modelled from the spec: the bytes a formatter task writes for one ticket (4.2).\<close>

definition expected ::
  "InternalFormatter \<Rightarrow> ProcessingUnitType \<times> Chunk \<times> Statistics \<Rightarrow> byte list" where
  "expected f ticket = (case ticket of (k, c, st) \<Rightarrow> format_one f k c st)"

text \<open>
  Modelled from the spec: the output of a single-threaded formatter over a sequence of
  tickets (sections 7 and 8): one thread formats ticket after ticket, each as a formatter
  task does, and appends the bytes to the sink.
\<close>

definition single_threaded_output ::
  "InternalFormatter \<Rightarrow> (ProcessingUnitType \<times> Chunk \<times> Statistics) list \<Rightarrow> byte list" where
  "single_threaded_output f ts = concat (map (expected f) ts)"

section \<open>Inner formatters, configurations and runs for concrete instances\<close>

text \<open>The formatter of scenario S1: a chunk \<open>c\<close> is written as \<open>[c]\<close>; 91 and 93 are the brackets.\<close>

definition bracket_formatter :: InternalFormatter where
  "bracket_formatter =
     \<lparr>areTotalsAndExtremesUsedInFinalize = False, supportsWritingException = False,
      writePrefix_bytes = [], consume_bytes = (\<lambda>c. [91] @ columns c @ [93]),
      writeSuffix_bytes = [],
      consumeTotals_bytes = (\<lambda>c. [91] @ columns c @ [93]),
      consumeExtremes_bytes = (\<lambda>c. [91] @ columns c @ [93]),
      finalize_bytes = (\<lambda>st. [])\<rparr>"

definition params_of :: "size_t \<Rightarrow> Params" where
  "params_of n = \<lparr>internal_formatter_creator = bracket_formatter,
     max_threads_for_parallel_formatting = n\<rparr>"





text \<open>A whole call of \<^verbatim>\<open>add_chunk\<close>, a whole formatter task, a whole round of the collector.\<close>

definition enqueue :: "Chunk \<Rightarrow> ProcessingUnitType \<Rightarrow> action list" where
  "enqueue c k = [Enter_addChunk c k True, Claim, Increment, Submit]"

definition work :: "nat \<Rightarrow> action list" where
  "work t = [Format t, Publish t]"

definition drain :: "action list" where
  "drain = [Append, Flush, Release, Advance]"




text \<open>
  Scenario S1 on a ring of three slots: prefix, the chunks \<open>a\<close>, \<open>b\<close>, \<open>c\<close>, suffix and
  FINALIZE, the tasks finishing out of order.
\<close>

definition scenario_S1 :: "action list" where
  "scenario_S1 =
     enqueue empty_Chunk START @ enqueue (Chunk 1 [97]) PLAIN @ enqueue (Chunk 1 [98]) PLAIN @
     work 2 @ work 0 @ drain @ enqueue (Chunk 1 [99]) PLAIN @ work 3 @ work 1 @ drain @ drain @
     enqueue empty_Chunk PLAIN_FINISH @ drain @ enqueue empty_Chunk FINALIZE @
     work 5 @ work 4 @ drain @ [Append]"

section \<open>The invariant of the ring\<close>

text \<open>
  The counters lag behind what the threads have done to the slots. The producer has
  claimed the tickets below \<open>claimed_upto\<close>: one more than \<open>writer_unit_number\<close> between its
  filling the slot and its increment. The collector has released the tickets below
  \<open>released_upto\<close>: one more than \<open>collector_unit_number\<close> between its release of the slot
  and its increment. It has appended the bytes of the tickets below \<open>appended_upto\<close>.
\<close>

fun holds_claim :: "producer_pc \<Rightarrow> bool" where
  "holds_claim (Claimed r) = True"
| "holds_claim pc = False"

definition claimed_upto :: "system \<Rightarrow> nat" where
  "claimed_upto s =
     (if holds_claim (producer s) then Suc (writer_unit_number s) else writer_unit_number s)"

definition released_upto :: "system \<Rightarrow> nat" where
  "released_upto s =
     (if collector s = Released then Suc (collector_unit_number s)
      else collector_unit_number s)"

definition appended_upto :: "system \<Rightarrow> nat" where
  "appended_upto s =
     (if collector s = Waiting \<or> (collector s = Exited \<and> \<not> collected_finalize s)
      then collector_unit_number s else Suc (collector_unit_number s))"

text \<open>The bytes of a slot that count: the first \<^verbatim>\<open>actual_memory_size\<close> of its buffer.\<close>

definition visible :: "ProcessingUnit \<Rightarrow> byte list" where
  "visible u = take (actual_memory_size u) (segment u)"

text \<open>
  The ring is not empty, the tickets released, counted by the writer and claimed follow
  each other within one ring length, and the history has one entry per claimed ticket.
\<close>

definition inv_bounds :: "system \<Rightarrow> bool" where
  "inv_bounds s \<longleftrightarrow>
     0 < length (processing_units s) \<and>
     released_upto s \<le> writer_unit_number s \<and>
     claimed_upto s \<le> released_upto s + length (processing_units s) \<and>
     length (tickets s) = claimed_upto s"

text \<open>
  The slot of a ticket that is claimed and not released is busy, holds the ticket's kind
  and chunk, and, once formatted, the ticket's bytes.
\<close>

definition inv_busy :: "InternalFormatter \<Rightarrow> system \<Rightarrow> bool" where
  "inv_busy f s \<longleftrightarrow>
     (\<forall>t. released_upto s \<le> t \<and> t < claimed_upto s \<longrightarrow>
        status (unit_of s t) \<noteq> READY_TO_INSERT \<and>
        unit_type (unit_of s t) = fst (tickets s ! t) \<and>
        chunk (unit_of s t) = fst (snd (tickets s ! t)) \<and>
        (status (unit_of s t) = READY_TO_READ \<or> (\<exists>r. pool s t = Some (Formatted r)) \<longrightarrow>
           visible (unit_of s t) = expected f (tickets s ! t)))"

text \<open>The slots of the next tickets, up to one ring length beyond the released ones, are free.\<close>

definition inv_free :: "system \<Rightarrow> bool" where
  "inv_free s \<longleftrightarrow>
     (\<forall>t. claimed_upto s \<le> t \<and> t < released_upto s + length (processing_units s) \<longrightarrow>
        status (unit_of s t) = READY_TO_INSERT)"

text \<open>A pending task is for a ticket the writer has counted, and its slot is being formatted.\<close>

definition inv_pool :: "system \<Rightarrow> bool" where
  "inv_pool s \<longleftrightarrow>
     (\<forall>t task. pool s t = Some task \<longrightarrow>
        released_upto s \<le> t \<and> t < writer_unit_number s \<and>
        status (unit_of s t) = READY_TO_FORMAT)"

text \<open>What the producer knows at each place inside \<^verbatim>\<open>add_chunk\<close>.\<close>

definition inv_producer :: "system \<Rightarrow> bool" where
  "inv_producer s \<longleftrightarrow>
     (\<forall>c k. producer s = Passed c k \<longrightarrow>
        writer_unit_number s < released_upto s + length (processing_units s) \<and>
        FINALIZE \<notin> fst ` set (tickets s)) \<and>
     (\<forall>r. producer s = Claimed r \<longrightarrow>
        status (unit_of s (writer_unit_number s)) = READY_TO_FORMAT) \<and>
     (\<forall>r. producer s = Incremented r \<longrightarrow>
        released_upto s < writer_unit_number s \<and>
        status (unit_of s (writer_unit_number s - 1)) = READY_TO_FORMAT \<and>
        pool s (writer_unit_number s - 1) = None)"

text \<open>What the collector knows between appending and releasing, and after FINALIZE.\<close>

definition inv_collector :: "system \<Rightarrow> bool" where
  "inv_collector s \<longleftrightarrow>
     (collector s = Appended \<or> collector s = Flushed \<longrightarrow>
        collector_unit_number s < claimed_upto s \<and>
        status (unit_of s (collector_unit_number s)) = READY_TO_READ) \<and>
     (collected_finalize s \<longrightarrow>
        collector s = Exited \<and> collector_unit_number s < claimed_upto s \<and>
        fst (tickets s ! collector_unit_number s) = FINALIZE)"

text \<open>
  The sink holds the bytes of the appended tickets in ticket order, followed, after a sink
  error only, by the part of the next ticket's bytes that the failed write got out.
\<close>

definition torn :: "InternalFormatter \<Rightarrow> system \<Rightarrow> byte list \<Rightarrow> bool" where
  "torn f s p \<longleftrightarrow>
     p = [] \<or>
     (collector s = Exited \<and> \<not> collected_finalize s \<and>
      collector_unit_number s < length (tickets s) \<and>
      (\<exists>n. p = take n (expected f (tickets s ! collector_unit_number s))))"

definition inv_out :: "InternalFormatter \<Rightarrow> system \<Rightarrow> bool" where
  "inv_out f s \<longleftrightarrow>
     (\<exists>p. out s = single_threaded_output f (take (appended_upto s) (tickets s)) @ p \<and>
          torn f s p)"

text \<open>A FINALIZE ticket is the last one, and the statistics are still those of its claim.\<close>

definition inv_finalize :: "system \<Rightarrow> bool" where
  "inv_finalize s \<longleftrightarrow>
     (\<forall>i < length (tickets s). fst (tickets s ! i) = FINALIZE \<longrightarrow>
        Suc i = length (tickets s) \<and> statistics s = snd (snd (tickets s ! i)))"

definition ring_inv :: "InternalFormatter \<Rightarrow> system \<Rightarrow> bool" where
  "ring_inv f s \<longleftrightarrow>
     inv_bounds s \<and> inv_busy f s \<and> inv_free s \<and> inv_pool s \<and> inv_producer s \<and>
     inv_collector s \<and> inv_out f s \<and> inv_finalize s"

text \<open>The part of a state that the invariant reads.\<close>

definition view ::
  "system \<Rightarrow> ProcessingUnit list \<times> nat \<times> nat \<times> producer_pc \<times> collector_pc \<times>
     (nat \<Rightarrow> task option) \<times> (ProcessingUnitType \<times> Chunk \<times> Statistics) list \<times> byte list \<times>
     Statistics \<times> bool" where
  "view s = (processing_units s, writer_unit_number s, collector_unit_number s, producer s,
     collector s, pool s, tickets s, out s, statistics s, collected_finalize s)"

text \<open>
  One step between two rings: the same number of slots, and every slot keeps its status or
  moves to the next one of the cycle.
\<close>

definition cycle_step :: "ProcessingUnit list \<Rightarrow> ProcessingUnit list \<Rightarrow> bool" where
  "cycle_step units units' \<longleftrightarrow>
     length units' = length units \<and>
     (\<forall>i < length units.
        status (units' ! i) = status (units ! i) \<or>
        status (units' ! i) = next_status (status (units ! i)))"

section \<open>Properties of \<^verbatim>\<open>byteSwap\<close>\<close>

subsection \<open>Bits of a byte-swapped value\<close>

lemma bit_from_bytes:
  "bit (from_bytes bs :: 'a::len word) n \<longleftrightarrow>
     n < LENGTH('a) \<and> n div 8 < length bs \<and> bit (bs ! (n div 8)) (n mod 8)"
proof (induction bs arbitrary: n)
  case Nil
  then show ?case by simp
next
  case (Cons b bs)
  show ?case
  proof (cases "n < 8")
    case True
    then show ?thesis
      by (auto simp: bit_or_iff bit_ucast_iff bit_push_bit_iff dest: bit_imp_le_length)
  next
    case False
    then have "n div 8 = Suc ((n - 8) div 8)" "(n - 8) mod 8 = n mod 8"
      by (simp_all add: le_div_geq le_mod_geq)
    with False show ?thesis
      by (auto simp: bit_or_iff bit_ucast_iff bit_push_bit_iff Cons.IH dest: bit_imp_le_length)
  qed
qed

lemma length_to_bytes: "length (to_bytes (x :: 'a::len word)) = LENGTH('a) div 8"
  by (simp add: to_bytes_def)

lemma bit_to_bytes:
  "i < LENGTH('a) div 8 \<Longrightarrow>
     bit (to_bytes (x :: 'a::len word) ! i) k \<longleftrightarrow> k < 8 \<and> bit x (8 * i + k)"
  by (auto simp: to_bytes_def bit_ucast_iff bit_drop_bit_eq)

lemma bit_std_byteswap:
  "bit (std_byteswap (x :: 'a::len word)) n \<longleftrightarrow>
     n < LENGTH('a) \<and> n div 8 < LENGTH('a) div 8 \<and>
     bit x (8 * (LENGTH('a) div 8 - 1 - n div 8) + n mod 8)"
  by (auto simp: std_byteswap_def bit_from_bytes length_to_bytes rev_nth bit_to_bytes)

lemma byteSwap_wide_eq: "byteSwap_wide x = std_byteswap x"
  by (simp add: byteSwap_wide_def std_byteswap_def reverseMemcpy_def length_to_bytes)

lemma std_byteswap_twice:
  assumes "8 dvd LENGTH('a::len)"
  shows "std_byteswap (std_byteswap (x :: 'a word)) = x"
proof (rule bit_eqI)
  fix n
  obtain m where m: "LENGTH('a) = 8 * m"
    using assms by (auto simp: dvd_def)
  show "bit (std_byteswap (std_byteswap x)) n = bit x n"
  proof (cases "n < LENGTH('a)")
    case False
    then show ?thesis by (auto simp: bit_std_byteswap dest: bit_imp_le_length)
  next
    case True
    define q r where "q = n div 8" and "r = n mod 8"
    have n: "n = 8 * q + r" and r: "r < 8" by (simp_all add: q_def r_def)
    have q: "q < m" using True m n by simp
    define n' where "n' = 8 * (m - 1 - q) + r"
    have n'1: "n' div 8 = m - 1 - q" and n'2: "n' mod 8 = r"
      using r by (simp_all add: n'_def)
    have n'3: "n' < 8 * m" using q r by (simp add: n'_def)
    have inv_q: "m - 1 - (m - 1 - q) = q" using q by simp
    have "bit (std_byteswap (std_byteswap x)) n \<longleftrightarrow> bit (std_byteswap x) n'"
      using True q by (simp add: bit_std_byteswap [of "std_byteswap x"] m n'_def q_def r_def)
    also have "\<dots> \<longleftrightarrow> bit x (8 * q + r)"
      using n'3 q by (simp add: bit_std_byteswap [of x] m n'1 n'2 inv_q)
    finally show ?thesis using n by simp
  qed
qed

lemma std_byteswap_8: "std_byteswap (x :: 8 word) = x"
  by (rule bit_eqI) (auto simp: bit_std_byteswap dest: bit_imp_le_length)

text \<open>The examples of the function's documentation, on the model.\<close>

lemma byteSwap_documented_examples:
  "byteSwap (3351772109 :: 32 word) = 3455829959"
  "byteSwap (54 :: 8 word) = 54"
  "byteSwap (4135 :: 16 word) = 10000"
  "byteSwap (123294967295 :: 64 word) = 18439412204227788800"
  by code_simp+

text \<open>
  Claim C10. \<^verbatim>\<open>byteSwap\<close> is an involution on every supported integer type: on the 8-, 16-,
  32- and 64-bit types (the \<^verbatim>\<open>std::byteswap\<close> overload) and on the 128- and 256-bit types (the
  \<^verbatim>\<open>reverseMemcpy\<close> overload) swapping twice gives the value back; on an 8-bit value a
  single swap already is the identity.
\<close>

theorem byteSwap_involution:
  "byteSwap (byteSwap (a :: 8 word)) = a \<and>
   byteSwap (byteSwap (b :: 16 word)) = b \<and>
   byteSwap (byteSwap (c :: 32 word)) = c \<and>
   byteSwap (byteSwap (d :: 64 word)) = d \<and>
   byteSwap_wide (byteSwap_wide (e :: 128 word)) = e \<and>
   byteSwap_wide (byteSwap_wide (f :: 256 word)) = f \<and>
   byteSwap (a :: 8 word) = a"
  by (simp add: byteSwap_def byteSwap_wide_eq std_byteswap_twice std_byteswap_8)

section \<open>Properties of the member functions defined in the header\<close>

subsection \<open>The ring of processing units\<close>






subsection \<open>Background exceptions\<close>

lemma onBackgroundException_fields:
  "background_exception (onBackgroundException e s) =
     (case background_exception s of None \<Rightarrow> Some e | Some e0 \<Rightarrow> Some e0)"
  "emergency_stop (onBackgroundException e s)"
  "writer_condvar_notified (onBackgroundException e s) = writer_condvar_notified s + 1"
  "collector_condvar_notified (onBackgroundException e s) = collector_condvar_notified s + 1"
  "exception_is_rethrown (onBackgroundException e s) = exception_is_rethrown s"
  by (simp_all add: onBackgroundException_def Let_def split: option.splits)

lemma fold_reports_set:
  "background_exception s = Some e0 \<Longrightarrow>
     background_exception (fold onBackgroundException es s) = Some e0"
  by (induction es arbitrary: s) (simp_all add: onBackgroundException_fields)

lemma fold_reports_stop:
  "emergency_stop s \<Longrightarrow> emergency_stop (fold onBackgroundException es s)"
  by (induction es arbitrary: s) (simp_all add: onBackgroundException_fields)

lemma fold_reports_notified:
  "writer_condvar_notified (fold onBackgroundException es s) =
     writer_condvar_notified s + length es \<and>
   collector_condvar_notified (fold onBackgroundException es s) =
     collector_condvar_notified s + length es"
  by (induction es arbitrary: s) (simp_all add: onBackgroundException_fields)

text \<open>
  Claim C4. Of any number of background errors reported one after the other, the first is
  the one kept in \<open>background_exception\<close> (or the one already there, if one was recorded
  before) and the later ones are dropped; every report leaves \<open>emergency_stop\<close> set and
  notifies the writer's and the collector's condition variable once each.
\<close>

theorem first_report_wins:
  "background_exception (fold onBackgroundException (e # es) s) =
     (case background_exception s of None \<Rightarrow> Some e | Some e0 \<Rightarrow> Some e0) \<and>
   emergency_stop (fold onBackgroundException (e # es) s) \<and>
   writer_condvar_notified (fold onBackgroundException (e # es) s) =
     writer_condvar_notified s + length (e # es) \<and>
   collector_condvar_notified (fold onBackgroundException (e # es) s) =
     collector_condvar_notified s + length (e # es)"
  using fold_reports_notified [of "e # es" s]
  by (simp add: fold_reports_set fold_reports_stop onBackgroundException_fields
      split: option.splits)

lemma take_Cons_replicate: "k \<le> n \<Longrightarrow> take k (x # replicate n x) = replicate k x"
  by (cases k) (simp_all add: min_def)

lemma rethrow_trace_latched:
  "exception_is_rethrown s \<Longrightarrow>
     map signal (rethrow_trace evs s) =
       replicate (length (filter (\<lambda>ev. ev = Caller_rethrow) evs)) (Return ())"
proof (induction evs arbitrary: s)
  case Nil
  then show ?case by simp
next
  case (Cons ev evs)
  then show ?case
    by (cases ev) (simp_all add: rethrowBackgroundException_def onBackgroundException_fields)
qed

text \<open>
  Claim C5. Once a background exception is recorded and not yet rethrown, of all the later
  calls of the rethrow path, among any further background reports, exactly the first
  throws, and it throws the recorded exception; every later call returns.
\<close>

theorem rethrown_exactly_once:
  assumes "background_exception s = Some e" and "\<not> exception_is_rethrown s"
  shows "map signal (rethrow_trace evs s) =
     take (length (filter (\<lambda>ev. ev = Caller_rethrow) evs))
       (Throw e () # replicate (length evs) (Return ()))"
  using assms
proof (induction evs arbitrary: s)
  case Nil
  then show ?case by simp
next
  case (Cons ev evs)
  show ?case
  proof (cases ev)
    case Caller_rethrow
    have "length (filter (\<lambda>ev. ev = Caller_rethrow) evs) \<le> length evs" by simp
    with Cons.prems Caller_rethrow show ?thesis
      by (simp add: rethrowBackgroundException_def rethrow_trace_latched take_Cons_replicate)
  next
    case (Background_report e')
    have "length (filter (\<lambda>ev. ev = Caller_rethrow) evs) \<le> length evs" by simp
    then have "take (length (filter (\<lambda>ev. ev = Caller_rethrow) evs))
            (Throw e () # replicate (Suc (length evs)) (Return ())) =
          take (length (filter (\<lambda>ev. ev = Caller_rethrow) evs))
            (Throw e () # replicate (length evs) (Return ()))"
      by (cases "length (filter (\<lambda>ev. ev = Caller_rethrow) evs)")
         (simp_all add: min_def take_Cons_replicate)
    with Cons.prems Background_report show ?thesis
      using Cons.IH [of "onBackgroundException e' s"]
      by (simp add: onBackgroundException_fields)
  qed
qed


theorem rethrown_exactly_once_witness:
  "map signal
     (rethrow_trace
        [Caller_rethrow, Background_report (Exception (OTHER_ERROR 2) ''second''),
         Caller_rethrow, Caller_rethrow]
        (onBackgroundException (Exception (OTHER_ERROR 1) ''first'')
           (construct (params_of 4)))) =
   [Throw (Exception (OTHER_ERROR 1) ''first'') (), Return (), Return ()]"
  using rethrown_exactly_once
    [of "onBackgroundException (Exception (OTHER_ERROR 1) ''first'') (construct (params_of 4))"
        "Exception (OTHER_ERROR 1) ''first''"
        "[Caller_rethrow, Background_report (Exception (OTHER_ERROR 2) ''second''),
          Caller_rethrow, Caller_rethrow]"]
  by (simp add: onBackgroundException_fields construct_def)

subsection \<open>Flush and reset\<close>

text \<open>
  Claim C8, as the code has it. \<^verbatim>\<open>flushImpl\<close> sets \<open>need_flush\<close> when \<open>auto_flush\<close> is off
  and leaves it as it is when \<open>auto_flush\<close> is on; it changes nothing else.
\<close>

theorem flushImpl_need_flush:
  "need_flush (flushImpl s) = (if auto_flush s then need_flush s else True) \<and>
   flushImpl s = s\<lparr>need_flush := need_flush (flushImpl s)\<rparr>"
  by (simp add: flushImpl_def)

text \<open>
  The claim as stated ("in any state") fails with \<open>auto_flush\<close> on: the flag stays unset.
\<close>

theorem flushImpl_counterexample:
  "\<not> need_flush (flushImpl ((construct (params_of 4))\<lparr>auto_flush := True\<rparr>))"
  by (simp add: flushImpl_def construct_def)

text \<open>
  Claim C9. \<^verbatim>\<open>resetFormatterImpl\<close> throws an exception of code NOT_IMPLEMENTED in every
  state, never returns, and the state at the throw is the state of the call.
\<close>

theorem resetFormatterImpl_not_implemented:
  "(\<exists>msg. resetFormatterImpl s = Throw (Exception NOT_IMPLEMENTED msg) s) \<and>
   (\<forall>s'. resetFormatterImpl s \<noteq> Return s') \<and>
   resetFormatterImpl s \<noteq> Waits \<and> resetFormatterImpl s \<noteq> Undefined_Behaviour"
  by (simp add: resetFormatterImpl_def)

section \<open>Properties of the ring\<close>

subsection \<open>The ring as a window of tickets\<close>

lemmas inv_defs = inv_bounds_def inv_busy_def inv_free_def inv_pool_def inv_producer_def
  inv_collector_def inv_out_def torn_def inv_finalize_def

lemma window_distinct_le:
  fixes t u n :: nat
  assumes "t \<le> u" "u < t + n" "t mod n = u mod n"
  shows "t = u"
proof -
  obtain k where k: "u = t + n * k"
    using assms by (auto elim: mod_eq_nat2E)
  have "k = 0"
  proof (rule ccontr)
    assume "k \<noteq> 0"
    then have "n \<le> n * k" by simp
    with k assms show False by simp
  qed
  with k show ?thesis by simp
qed

lemma window_distinct:
  fixes a n :: nat
  assumes "a \<le> t" "t < a + n" "a \<le> u" "u < a + n" "t mod n = u mod n"
  shows "t = u"
proof (cases "t \<le> u")
  case True
  with assms show ?thesis by (intro window_distinct_le [of t u n]) simp_all
next
  case False
  with assms have "u = t" by (intro window_distinct_le [of u t n]) simp_all
  then show ?thesis by simp
qed

lemma length_put_unit [simp]: "length (put_unit t u units) = length units"
  by (simp add: put_unit_def)

lemma unit_at_put_unit_same [simp]:
  "0 < length units \<Longrightarrow> unit_at (put_unit t u units) t = u"
  by (simp add: unit_at_def put_unit_def)

lemma unit_at_put_unit_other:
  assumes "a \<le> t" "t < a + length units" "a \<le> t0" "t0 < a + length units" "t \<noteq> t0"
  shows "unit_at (put_unit t0 u units) t = unit_at units t"
proof -
  have "t mod length units \<noteq> t0 mod length units"
    using assms window_distinct [of a t "length units" t0] by blast
  then show ?thesis by (simp add: unit_at_def put_unit_def)
qed

lemma unit_at_wrap: "unit_at units (t + length units) = unit_at units t"
  by (simp add: unit_at_def)

lemma format_one_statistics:
  "k \<noteq> FINALIZE \<Longrightarrow> format_one f k c st = format_one f k c st'"
  by (cases k) (simp_all add: format_one_def)

lemma ring_inv_view:
  assumes "view s' = view s"
  shows "ring_inv f s' = ring_inv f s"
proof -
  from assms have eqs:
    "processing_units s' = processing_units s" "writer_unit_number s' = writer_unit_number s"
    "collector_unit_number s' = collector_unit_number s" "producer s' = producer s"
    "collector s' = collector s" "pool s' = pool s" "tickets s' = tickets s" "out s' = out s"
    "statistics s' = statistics s" "collected_finalize s' = collected_finalize s"
    by (simp_all add: view_def)
  show ?thesis
    unfolding ring_inv_def inv_defs claimed_upto_def released_upto_def appended_upto_def
      unit_of_def eqs ..
qed

lemma onBackgroundException_view [simp]: "view (onBackgroundException e s) = view s"
  by (simp add: view_def onBackgroundException_def Let_def)

lemma Cancel_preserves: "ring_inv f s \<Longrightarrow> ring_inv f (finishAndWait_stop s)"
  using ring_inv_view [of "finishAndWait_stop s" s f]
  by (simp add: view_def finishAndWait_stop_def)

lemma Call_flush_preserves: "ring_inv f s \<Longrightarrow> ring_inv f (flushImpl s)"
  using ring_inv_view [of "flushImpl s" s f]
  by (simp add: view_def flushImpl_def)


subsection \<open>Positions\<close>

lemma claimed_upto_bounds:
  "writer_unit_number s \<le> claimed_upto s" "claimed_upto s \<le> Suc (writer_unit_number s)"
  by (simp_all add: claimed_upto_def)

lemma released_upto_bounds:
  "collector_unit_number s \<le> released_upto s"
  "released_upto s \<le> Suc (collector_unit_number s)"
  by (simp_all add: released_upto_def)

lemma claimed_upto_cases:
  "producer s = Outside \<Longrightarrow> claimed_upto s = writer_unit_number s"
  "producer s = Passed c k \<Longrightarrow> claimed_upto s = writer_unit_number s"
  "producer s = Claimed r \<Longrightarrow> claimed_upto s = Suc (writer_unit_number s)"
  "producer s = Incremented r \<Longrightarrow> claimed_upto s = writer_unit_number s"
  by (simp_all add: claimed_upto_def)

lemma released_upto_cases:
  "collector s = Waiting \<Longrightarrow> released_upto s = collector_unit_number s"
  "collector s = Appended \<Longrightarrow> released_upto s = collector_unit_number s"
  "collector s = Flushed \<Longrightarrow> released_upto s = collector_unit_number s"
  "collector s = Released \<Longrightarrow> released_upto s = Suc (collector_unit_number s)"
  "collector s = Exited \<Longrightarrow> released_upto s = collector_unit_number s"
  by (simp_all add: released_upto_def)

lemma appended_upto_cases:
  "collector s = Waiting \<Longrightarrow> appended_upto s = collector_unit_number s"
  "collector s = Appended \<Longrightarrow> appended_upto s = Suc (collector_unit_number s)"
  "collector s = Flushed \<Longrightarrow> appended_upto s = Suc (collector_unit_number s)"
  "collector s = Released \<Longrightarrow> appended_upto s = Suc (collector_unit_number s)"
  "collector s = Exited \<Longrightarrow> collected_finalize s \<Longrightarrow>
     appended_upto s = Suc (collector_unit_number s)"
  "collector s = Exited \<Longrightarrow> \<not> collected_finalize s \<Longrightarrow>
     appended_upto s = collector_unit_number s"
  by (simp_all add: appended_upto_def)

lemma unit_of_set_unit:
  assumes "a \<le> t0" "t0 < a + length (processing_units s)"
    and "a \<le> t" "t < a + length (processing_units s)"
  shows "unit_of (set_unit t0 u s) t = (if t = t0 then u else unit_of s t)"
proof (cases "t = t0")
  case True
  from assms have "processing_units s \<noteq> []" by auto
  with True show ?thesis by (simp add: unit_of_def set_unit_def)
next
  case False
  with assms show ?thesis
    by (simp add: unit_of_def set_unit_def unit_at_put_unit_other [of a])
qed

lemma unit_of_wrap: "unit_of s (t + length (processing_units s)) = unit_of s t"
  by (simp add: unit_of_def unit_at_wrap)


subsection \<open>What each part of the invariant reads\<close>

lemma inv_out_cong:
  assumes "out s' = out s" "tickets s' = tickets s" "collector s' = collector s"
    "collected_finalize s' = collected_finalize s"
    "collector_unit_number s' = collector_unit_number s"
  shows "inv_out f s' = inv_out f s"
  unfolding inv_out_def torn_def appended_upto_def assms ..

lemma inv_finalize_cong:
  assumes "tickets s' = tickets s" "statistics s' = statistics s"
  shows "inv_finalize s' = inv_finalize s"
  unfolding inv_finalize_def assms ..


lemma inv_bounds_cong:
  assumes "length (processing_units s') = length (processing_units s)"
    "released_upto s' = released_upto s" "claimed_upto s' = claimed_upto s"
    "writer_unit_number s' = writer_unit_number s" "length (tickets s') = length (tickets s)"
  shows "inv_bounds s' = inv_bounds s"
  unfolding inv_bounds_def assms ..

lemma inv_busy_cong:
  assumes "released_upto s' = released_upto s" "claimed_upto s' = claimed_upto s"
    "unit_of s' = unit_of s" "tickets s' = tickets s" "pool s' = pool s"
  shows "inv_busy f s' = inv_busy f s"
  unfolding inv_busy_def assms ..

lemma inv_free_cong:
  assumes "length (processing_units s') = length (processing_units s)"
    "released_upto s' = released_upto s" "claimed_upto s' = claimed_upto s"
    "unit_of s' = unit_of s"
  shows "inv_free s' = inv_free s"
  unfolding inv_free_def assms ..

lemma inv_pool_cong:
  assumes "released_upto s' = released_upto s" "writer_unit_number s' = writer_unit_number s"
    "unit_of s' = unit_of s" "pool s' = pool s"
  shows "inv_pool s' = inv_pool s"
  unfolding inv_pool_def assms ..

lemma inv_producer_cong:
  assumes "length (processing_units s') = length (processing_units s)"
    "released_upto s' = released_upto s" "writer_unit_number s' = writer_unit_number s"
    "unit_of s' = unit_of s" "pool s' = pool s" "tickets s' = tickets s"
    "producer s' = producer s"
  shows "inv_producer s' = inv_producer s"
  unfolding inv_producer_def assms ..

lemma inv_collector_cong:
  assumes "claimed_upto s' = claimed_upto s"
    "collector_unit_number s' = collector_unit_number s"
    "unit_of s' = unit_of s" "tickets s' = tickets s" "collector s' = collector s"
    "collected_finalize s' = collected_finalize s"
  shows "inv_collector s' = inv_collector s"
  unfolding inv_collector_def assms ..

lemma ring_invD:
  assumes "ring_inv f s"
  shows "inv_bounds s" "inv_busy f s" "inv_free s" "inv_pool s" "inv_producer s"
    "inv_collector s" "inv_out f s" "inv_finalize s"
  using assms by (simp_all add: ring_inv_def)

lemma ring_invI:
  assumes "inv_bounds s" "inv_busy f s" "inv_free s" "inv_pool s" "inv_producer s"
    "inv_collector s" "inv_out f s" "inv_finalize s"
  shows "ring_inv f s"
  using assms by (simp add: ring_inv_def)

subsection \<open>Every step keeps the invariant\<close>

subsubsection \<open>Pass\<close>

lemma pass_fields:
  "length (processing_units (s\<lparr>producer := Passed c k\<rparr>)) = length (processing_units (s))"
  "writer_unit_number (s\<lparr>producer := Passed c k\<rparr>) = writer_unit_number (s)"
  "collector_unit_number (s\<lparr>producer := Passed c k\<rparr>) = collector_unit_number (s)"
  "producer (s\<lparr>producer := Passed c k\<rparr>) = Passed c k"
  "collector (s\<lparr>producer := Passed c k\<rparr>) = collector (s)"
  "pool (s\<lparr>producer := Passed c k\<rparr>) = pool (s)"
  "tickets (s\<lparr>producer := Passed c k\<rparr>) = tickets (s)"
  "out (s\<lparr>producer := Passed c k\<rparr>) = out (s)"
  "statistics (s\<lparr>producer := Passed c k\<rparr>) = statistics (s)"
  "collected_finalize (s\<lparr>producer := Passed c k\<rparr>) = collected_finalize (s)"
  "unit_of (s\<lparr>producer := Passed c k\<rparr>) = unit_of (s)"
  "claimed_upto (s\<lparr>producer := Passed c k\<rparr>) = writer_unit_number s"
  "released_upto (s\<lparr>producer := Passed c k\<rparr>) = released_upto (s)"
  "appended_upto (s\<lparr>producer := Passed c k\<rparr>) = appended_upto (s)"
  by (simp_all add: refl unit_of_def fun_eq_iff Let_def
      claimed_upto_def released_upto_def appended_upto_def)

lemma Pass_preserves:
  assumes inv: "ring_inv f s" and g: "producer s = Outside"
    and free_slot: "status (unit_of s (writer_unit_number s)) = READY_TO_INSERT"
    and open_stream: "FINALIZE \<notin> fst ` set (tickets s)"
  shows "ring_inv f (s\<lparr>producer := Passed c k\<rparr>)"
proof -
  let ?s = "s\<lparr>producer := Passed c k\<rparr>"
  note b = ring_invD(1) [OF inv] and busy = ring_invD(2) [OF inv] and free = ring_invD(3) [OF inv]
    and pl = ring_invD(4) [OF inv] and pr = ring_invD(5) [OF inv] and co = ring_invD(6) [OF inv]
    and ou = ring_invD(7) [OF inv] and fi = ring_invD(8) [OF inv]
  have cw: "claimed_upto s = writer_unit_number s"
    using g by (simp add: claimed_upto_cases)
  have room: "writer_unit_number s < released_upto s + length (processing_units s)"
  proof (rule ccontr)
    assume "\<not> ?thesis"
    with b cw have full: "writer_unit_number s = released_upto s + length (processing_units s)"
      and "released_upto s < claimed_upto s"
      by (auto simp: inv_bounds_def)
    with busy have "status (unit_of s (released_upto s)) \<noteq> READY_TO_INSERT"
      by (auto simp: inv_busy_def)
    with free_slot full unit_of_wrap [of s "released_upto s"] show False by simp
  qed
  have 1: "inv_bounds ?s"
    using b inv_bounds_cong [of ?s s] cw by (simp add: pass_fields)
  have 2: "inv_busy f ?s"
    using busy inv_busy_cong [of ?s s f] cw by (simp add: pass_fields)
  have 3: "inv_free ?s"
    using free inv_free_cong [of ?s s] cw by (simp add: pass_fields)
  have 4: "inv_pool ?s"
    using pl inv_pool_cong [of ?s s] cw by (simp add: pass_fields)
  have 5: "inv_producer ?s"
    using room open_stream by (simp add: inv_producer_def pass_fields)
  have 6: "inv_collector ?s"
    using co inv_collector_cong [of ?s s] cw by (simp add: pass_fields)
  have 7: "inv_out f ?s"
    using ou inv_out_cong [of ?s s f] by (simp add: pass_fields)
  have 8: "inv_finalize ?s"
    using fi inv_finalize_cong [of ?s s] by (simp add: pass_fields)
  show ?thesis
    by (rule ring_invI) (fact 1 2 3 4 5 6 7 8)+
qed

subsubsection \<open>Claim\<close>

lemma claim_fields:
  "length (processing_units (addChunk_claim c k s)) = length (processing_units s)"
  "writer_unit_number (addChunk_claim c k s) = writer_unit_number s"
  "collector_unit_number (addChunk_claim c k s) = collector_unit_number s"
  "producer (addChunk_claim c k s) = Claimed (rows_consumed s)"
  "collector (addChunk_claim c k s) = collector s"
  "pool (addChunk_claim c k s) = pool s"
  "tickets (addChunk_claim c k s) = tickets s @ [(k, c, statistics s)]"
  "out (addChunk_claim c k s) = out s"
  "statistics (addChunk_claim c k s) = statistics s"
  "collected_finalize (addChunk_claim c k s) = collected_finalize s"
  "claimed_upto (addChunk_claim c k s) = Suc (writer_unit_number s)"
  "released_upto (addChunk_claim c k s) = released_upto s"
  "appended_upto (addChunk_claim c k s) = appended_upto s"
  by (simp_all add: addChunk_claim_def set_unit_def unit_of_def fun_eq_iff Let_def
      claimed_upto_def released_upto_def appended_upto_def)

lemma claim_unit_of:
  "unit_of (addChunk_claim c k s) = unit_of (set_unit (writer_unit_number s) (claimed_unit c k s) s)"
  by (simp add: addChunk_claim_def set_unit_def unit_of_def fun_eq_iff)

lemma appended_le_claimed:
  assumes b: "inv_bounds s" and co: "inv_collector s"
  shows "appended_upto s \<le> claimed_upto s"
proof (cases "collector s")
  case Waiting
  with b claimed_upto_bounds [of s] show ?thesis
    by (auto simp: inv_bounds_def appended_upto_cases released_upto_cases)
next
  case Appended
  with co show ?thesis by (auto simp: inv_collector_def appended_upto_cases)
next
  case Flushed
  with co show ?thesis by (auto simp: inv_collector_def appended_upto_cases)
next
  case Released
  with b claimed_upto_bounds [of s] show ?thesis
    by (auto simp: inv_bounds_def appended_upto_cases released_upto_cases)
next
  case Exited
  with b co claimed_upto_bounds [of s] show ?thesis
    by (cases "collected_finalize s")
       (auto simp: inv_bounds_def inv_collector_def appended_upto_cases released_upto_cases)
qed

lemma Claim_preserves:
  assumes inv: "ring_inv f s" and g: "producer s = Passed c k"
  shows "ring_inv f (addChunk_claim c k s)"
proof -
  let ?s = "addChunk_claim c k s"
  let ?w = "writer_unit_number s"
  let ?n = "length (processing_units s)"
  let ?u = "claimed_unit c k s"
  note b = ring_invD(1) [OF inv] and busy = ring_invD(2) [OF inv] and free = ring_invD(3) [OF inv]
    and pl = ring_invD(4) [OF inv] and pr = ring_invD(5) [OF inv] and co = ring_invD(6) [OF inv]
    and ou = ring_invD(7) [OF inv] and fi = ring_invD(8) [OF inv]
  have cw: "claimed_upto s = ?w"
    using g by (simp add: claimed_upto_cases)
  from pr g have room: "?w < released_upto s + ?n" and open_stream: "FINALIZE \<notin> fst ` set (tickets s)"
    by (auto simp: inv_producer_def)
  from b cw have len: "length (tickets s) = ?w" and low: "released_upto s \<le> ?w"
    by (auto simp: inv_bounds_def)
  have unit: "unit_of ?s t = (if t = ?w then ?u else unit_of s t)"
    if "released_upto s \<le> t" "t < released_upto s + ?n" for t
    using that low room by (simp add: claim_unit_of unit_of_set_unit [of "released_upto s"])
  have ticket_old: "tickets ?s ! t = tickets s ! t" if "t < ?w" for t
    using that len by (simp add: claim_fields nth_append)
  have ticket_new: "tickets ?s ! ?w = (k, c, statistics s)"
    using len by (simp add: claim_fields nth_append)
  have 1: "inv_bounds ?s"
    using b room len by (simp add: inv_bounds_def claim_fields)
  have 2: "inv_busy f ?s"
    unfolding inv_busy_def
  proof (intro allI impI)
    fix t assume t: "released_upto ?s \<le> t \<and> t < claimed_upto ?s"
    then have tw: "released_upto s \<le> t" "t < released_upto s + ?n" "t \<le> ?w"
      using room by (auto simp: claim_fields)
    note u = unit [OF this(1,2)]
    show "status (unit_of ?s t) \<noteq> READY_TO_INSERT \<and>
        unit_type (unit_of ?s t) = fst (tickets ?s ! t) \<and>
        chunk (unit_of ?s t) = fst (snd (tickets ?s ! t)) \<and>
        (status (unit_of ?s t) = READY_TO_READ \<or> (\<exists>r. pool ?s t = Some (Formatted r)) \<longrightarrow>
           visible (unit_of ?s t) = expected f (tickets ?s ! t))"
    proof (cases "t = ?w")
      case True
      from pl have "pool s ?w = None"
        by (cases "pool s ?w") (auto simp: inv_pool_def)
      with True have "pool ?s t = None" by (simp add: claim_fields)
      moreover from True u have "unit_of ?s t = ?u" by simp
      moreover from True ticket_new have "tickets ?s ! t = (k, c, statistics s)" by simp
      ultimately show ?thesis
        by (simp add: claimed_unit_def)
    next
      case False
      with tw have lt: "t < ?w" by simp
      with busy tw cw have old: "status (unit_of s t) \<noteq> READY_TO_INSERT"
        "unit_type (unit_of s t) = fst (tickets s ! t)"
        "chunk (unit_of s t) = fst (snd (tickets s ! t))"
        "status (unit_of s t) = READY_TO_READ \<or> (\<exists>r. pool s t = Some (Formatted r)) \<longrightarrow>
           visible (unit_of s t) = expected f (tickets s ! t)"
        by (auto simp: inv_busy_def)
      moreover from False u have "unit_of ?s t = unit_of s t" by simp
      moreover note ticket_old [OF lt]
      moreover have "pool ?s t = pool s t" by (simp add: claim_fields)
      ultimately show ?thesis by simp
    qed
  qed
  have 3: "inv_free ?s"
    unfolding inv_free_def
  proof (intro allI impI)
    fix t assume t: "claimed_upto ?s \<le> t \<and> t < released_upto ?s + length (processing_units ?s)"
    then have "released_upto s \<le> t" "t < released_upto s + ?n" "t \<noteq> ?w" "claimed_upto s \<le> t"
      using low cw by (auto simp: claim_fields)
    with unit [of t] free show "status (unit_of ?s t) = READY_TO_INSERT"
      by (auto simp: inv_free_def)
  qed
  have 4: "inv_pool ?s"
    unfolding inv_pool_def
  proof (intro allI impI)
    fix t task assume "pool ?s t = Some task"
    with pl have old: "released_upto s \<le> t" "t < ?w" "status (unit_of s t) = READY_TO_FORMAT"
      by (auto simp: inv_pool_def claim_fields)
    with room have "t < released_upto s + ?n" "t \<noteq> ?w" by auto
    with unit [of t] old
    show "released_upto ?s \<le> t \<and> t < writer_unit_number ?s \<and>
        status (unit_of ?s t) = READY_TO_FORMAT"
      by (simp add: claim_fields)
  qed
  have 5: "inv_producer ?s"
    using unit [of ?w] low room
    by (simp add: inv_producer_def claim_fields claimed_unit_def)
  have 6: "inv_collector ?s"
    unfolding inv_collector_def
  proof (intro conjI impI)
    assume c: "collector ?s = Appended \<or> collector ?s = Flushed"
    with co cw have old: "collector_unit_number s < ?w"
      "status (unit_of s (collector_unit_number s)) = READY_TO_READ"
      by (auto simp: inv_collector_def claim_fields)
    from c have "released_upto s = collector_unit_number s"
      by (auto simp: claim_fields released_upto_cases)
    with old room have "released_upto s \<le> collector_unit_number s"
      "collector_unit_number s < released_upto s + ?n" "collector_unit_number s \<noteq> ?w"
      by auto
    with unit [of "collector_unit_number s"] old
    show "collector_unit_number ?s < claimed_upto ?s"
      "status (unit_of ?s (collector_unit_number ?s)) = READY_TO_READ"
      by (auto simp: claim_fields)
  next
    assume "collected_finalize ?s"
    with co cw have old: "collector s = Exited" "collector_unit_number s < ?w"
      "fst (tickets s ! collector_unit_number s) = FINALIZE"
      by (auto simp: inv_collector_def claim_fields)
    with ticket_old [of "collector_unit_number s"]
    show "collector ?s = Exited" "collector_unit_number ?s < claimed_upto ?s"
      "fst (tickets ?s ! collector_unit_number ?s) = FINALIZE"
      by (auto simp: claim_fields)
  qed
  have 7: "inv_out f ?s"
  proof -
    from ou obtain p where p: "out s = single_threaded_output f (take (appended_upto s) (tickets s)) @ p"
      "torn f s p"
      by (auto simp: inv_out_def)
    from appended_le_claimed [OF b co] cw len have "appended_upto s \<le> length (tickets s)"
      by simp
    then have 1: "take (appended_upto ?s) (tickets ?s) = take (appended_upto s) (tickets s)"
      by (simp add: claim_fields)
    have 2: "torn f ?s p"
      using p(2) len ticket_old [of "collector_unit_number s"]
      by (auto simp: torn_def claim_fields)
    from p(1) 1 2 show ?thesis
      unfolding inv_out_def by (auto simp: claim_fields)
  qed
  have 8: "inv_finalize ?s"
    unfolding inv_finalize_def
  proof (intro allI impI)
    fix i assume i: "i < length (tickets ?s)" and k: "fst (tickets ?s ! i) = FINALIZE"
    show "Suc i = length (tickets ?s) \<and> statistics ?s = snd (snd (tickets ?s ! i))"
    proof (cases "i = ?w")
      case True
      with ticket_new have "tickets ?s ! i = (k, c, statistics s)" by simp
      moreover from True len have "Suc i = length (tickets ?s)" by (simp add: claim_fields)
      moreover have "statistics ?s = statistics s" by (simp add: claim_fields)
      ultimately show ?thesis by simp
    next
      case False
      with i len have lt: "i < ?w" by (simp add: claim_fields)
      with k len have "FINALIZE \<in> fst ` set (tickets s)"
        by (metis ticket_old image_eqI nth_mem)
      with open_stream show ?thesis by simp
    qed
  qed
  show ?thesis
    by (rule ring_invI) (fact 1 2 3 4 5 6 7 8)+
qed

subsubsection \<open>Increment\<close>

lemma increment_fields:
  "length (processing_units (addChunk_increment r s)) = length (processing_units (s))"
  "writer_unit_number (addChunk_increment r s) = Suc (writer_unit_number s)"
  "collector_unit_number (addChunk_increment r s) = collector_unit_number (s)"
  "producer (addChunk_increment r s) = Incremented r"
  "collector (addChunk_increment r s) = collector (s)"
  "pool (addChunk_increment r s) = pool (s)"
  "tickets (addChunk_increment r s) = tickets (s)"
  "out (addChunk_increment r s) = out (s)"
  "statistics (addChunk_increment r s) = statistics (s)"
  "collected_finalize (addChunk_increment r s) = collected_finalize (s)"
  "unit_of (addChunk_increment r s) = unit_of (s)"
  "claimed_upto (addChunk_increment r s) = Suc (writer_unit_number s)"
  "released_upto (addChunk_increment r s) = released_upto (s)"
  "appended_upto (addChunk_increment r s) = appended_upto (s)"
  by (simp_all add: addChunk_increment_def unit_of_def fun_eq_iff Let_def
      claimed_upto_def released_upto_def appended_upto_def)

lemma Increment_preserves:
  assumes inv: "ring_inv f s" and g: "producer s = Claimed r"
  shows "ring_inv f (addChunk_increment r s)"
proof -
  let ?s = "addChunk_increment r s"
  note b = ring_invD(1) [OF inv] and busy = ring_invD(2) [OF inv] and free = ring_invD(3) [OF inv]
    and pl = ring_invD(4) [OF inv] and pr = ring_invD(5) [OF inv] and co = ring_invD(6) [OF inv]
    and ou = ring_invD(7) [OF inv] and fi = ring_invD(8) [OF inv]
  have 1: "inv_bounds ?s"
    using b g claimed_upto_cases(3) [of s r]
    by (auto simp: inv_bounds_def increment_fields)
  have 2: "inv_busy f ?s"
    using busy inv_busy_cong [of ?s s f] g claimed_upto_cases [of s] released_upto_cases [of s] appended_upto_cases [of s]
    by (simp add: increment_fields)
  have 3: "inv_free ?s"
    using free inv_free_cong [of ?s s] g claimed_upto_cases [of s] released_upto_cases [of s] appended_upto_cases [of s]
    by (simp add: increment_fields)
  have 4: "inv_pool ?s"
    using pl g claimed_upto_cases(3) [of s r]
    by (auto simp: inv_pool_def increment_fields)
  have 5: "inv_producer ?s"
    using pr pl b g claimed_upto_cases(3) [of s r]
    by (auto simp: inv_producer_def inv_pool_def inv_bounds_def increment_fields)
  have 6: "inv_collector ?s"
    using co inv_collector_cong [of ?s s] g claimed_upto_cases [of s] released_upto_cases [of s] appended_upto_cases [of s]
    by (simp add: increment_fields)
  have 7: "inv_out f ?s"
    using ou inv_out_cong [of ?s s f] 
    by (simp add: increment_fields)
  have 8: "inv_finalize ?s"
    using fi inv_finalize_cong [of ?s s] 
    by (simp add: increment_fields)

  show ?thesis
    by (rule ring_invI) (fact 1 2 3 4 5 6 7 8)+
qed

subsubsection \<open>Submit\<close>

lemma submit_fields:
  "length (processing_units (addChunk_submit r s)) = length (processing_units (s))"
  "writer_unit_number (addChunk_submit r s) = writer_unit_number (s)"
  "collector_unit_number (addChunk_submit r s) = collector_unit_number (s)"
  "producer (addChunk_submit r s) = Outside"
  "collector (addChunk_submit r s) = collector (s)"
  "pool (addChunk_submit r s) = (pool s)(writer_unit_number s - 1 \<mapsto> Scheduled r)"
  "tickets (addChunk_submit r s) = tickets (s)"
  "out (addChunk_submit r s) = out (s)"
  "statistics (addChunk_submit r s) = statistics (s)"
  "collected_finalize (addChunk_submit r s) = collected_finalize (s)"
  "unit_of (addChunk_submit r s) = unit_of (s)"
  "claimed_upto (addChunk_submit r s) = writer_unit_number s"
  "released_upto (addChunk_submit r s) = released_upto (s)"
  "appended_upto (addChunk_submit r s) = appended_upto (s)"
  by (simp_all add: addChunk_submit_def unit_of_def fun_eq_iff Let_def
      claimed_upto_def released_upto_def appended_upto_def)

lemma Submit_preserves:
  assumes inv: "ring_inv f s" and g: "producer s = Incremented r"
  shows "ring_inv f (addChunk_submit r s)"
proof -
  let ?s = "addChunk_submit r s"
  note b = ring_invD(1) [OF inv] and busy = ring_invD(2) [OF inv] and free = ring_invD(3) [OF inv]
    and pl = ring_invD(4) [OF inv] and pr = ring_invD(5) [OF inv] and co = ring_invD(6) [OF inv]
    and ou = ring_invD(7) [OF inv] and fi = ring_invD(8) [OF inv]
  have 1: "inv_bounds ?s"
    using b inv_bounds_cong [of ?s s] g claimed_upto_cases [of s] released_upto_cases [of s] appended_upto_cases [of s]
    by (simp add: submit_fields)
  have 2: "inv_busy f ?s"
    using busy g claimed_upto_cases(4) [of s r]
    by (auto simp: inv_busy_def submit_fields)
  have 3: "inv_free ?s"
    using free inv_free_cong [of ?s s] g claimed_upto_cases [of s] released_upto_cases [of s] appended_upto_cases [of s]
    by (simp add: submit_fields)
  have 4: "inv_pool ?s"
    using pl pr g
    by (auto simp: inv_pool_def inv_producer_def submit_fields)
  have 5: "inv_producer ?s"
    using g
    by (auto simp: inv_producer_def submit_fields)
  have 6: "inv_collector ?s"
    using co inv_collector_cong [of ?s s] g claimed_upto_cases [of s] released_upto_cases [of s] appended_upto_cases [of s]
    by (simp add: submit_fields)
  have 7: "inv_out f ?s"
    using ou inv_out_cong [of ?s s f] 
    by (simp add: submit_fields)
  have 8: "inv_finalize ?s"
    using fi inv_finalize_cong [of ?s s] 
    by (simp add: submit_fields)

  show ?thesis
    by (rule ring_invI) (fact 1 2 3 4 5 6 7 8)+
qed

subsubsection \<open>Submit fails\<close>

lemma submit_fails_fields:
  "length (processing_units (addChunk_submit_fails e s)) = length (processing_units (s))"
  "writer_unit_number (addChunk_submit_fails e s) = writer_unit_number (s)"
  "collector_unit_number (addChunk_submit_fails e s) = collector_unit_number (s)"
  "producer (addChunk_submit_fails e s) = Outside"
  "collector (addChunk_submit_fails e s) = collector (s)"
  "pool (addChunk_submit_fails e s) = pool (s)"
  "tickets (addChunk_submit_fails e s) = tickets (s)"
  "out (addChunk_submit_fails e s) = out (s)"
  "statistics (addChunk_submit_fails e s) = statistics (s)"
  "collected_finalize (addChunk_submit_fails e s) = collected_finalize (s)"
  "unit_of (addChunk_submit_fails e s) = unit_of (s)"
  "claimed_upto (addChunk_submit_fails e s) = writer_unit_number s"
  "released_upto (addChunk_submit_fails e s) = released_upto (s)"
  "appended_upto (addChunk_submit_fails e s) = appended_upto (s)"
  by (simp_all add: addChunk_submit_fails_def onBackgroundException_def unit_of_def fun_eq_iff Let_def
      claimed_upto_def released_upto_def appended_upto_def)

lemma Submit_fails_preserves:
  assumes inv: "ring_inv f s" and g: "producer s = Incremented r"
  shows "ring_inv f (addChunk_submit_fails e s)"
proof -
  let ?s = "addChunk_submit_fails e s"
  note b = ring_invD(1) [OF inv] and busy = ring_invD(2) [OF inv] and free = ring_invD(3) [OF inv]
    and pl = ring_invD(4) [OF inv] and pr = ring_invD(5) [OF inv] and co = ring_invD(6) [OF inv]
    and ou = ring_invD(7) [OF inv] and fi = ring_invD(8) [OF inv]
  have 1: "inv_bounds ?s"
    using b inv_bounds_cong [of ?s s] g claimed_upto_cases [of s] released_upto_cases [of s] appended_upto_cases [of s]
    by (simp add: submit_fails_fields)
  have 2: "inv_busy f ?s"
    using busy inv_busy_cong [of ?s s f] g claimed_upto_cases [of s] released_upto_cases [of s] appended_upto_cases [of s]
    by (simp add: submit_fails_fields)
  have 3: "inv_free ?s"
    using free inv_free_cong [of ?s s] g claimed_upto_cases [of s] released_upto_cases [of s] appended_upto_cases [of s]
    by (simp add: submit_fails_fields)
  have 4: "inv_pool ?s"
    using pl inv_pool_cong [of ?s s] g claimed_upto_cases [of s] released_upto_cases [of s] appended_upto_cases [of s]
    by (simp add: submit_fails_fields)
  have 5: "inv_producer ?s"
    using g
    by (auto simp: inv_producer_def submit_fails_fields)
  have 6: "inv_collector ?s"
    using co inv_collector_cong [of ?s s] g claimed_upto_cases [of s] released_upto_cases [of s] appended_upto_cases [of s]
    by (simp add: submit_fails_fields)
  have 7: "inv_out f ?s"
    using ou inv_out_cong [of ?s s f] 
    by (simp add: submit_fails_fields)
  have 8: "inv_finalize ?s"
    using fi inv_finalize_cong [of ?s s] 
    by (simp add: submit_fails_fields)

  show ?thesis
    by (rule ring_invI) (fact 1 2 3 4 5 6 7 8)+
qed

subsubsection \<open>Format\<close>

lemma formatted_unit_simps:
  "status (formatted_unit f s t) = status (unit_of s t)"
  "unit_type (formatted_unit f s t) = unit_type (unit_of s t)"
  "chunk (formatted_unit f s t) = chunk (unit_of s t)"
  "visible (formatted_unit f s t) =
     format_one f (unit_type (unit_of s t)) (chunk (unit_of s t))
       (if unit_type (unit_of s t) = FINALIZE then statistics s
        else unit_statistics (unit_of s t))"
  by (simp_all add: formatted_unit_def Let_def visible_def)

lemma format_fields:
  "length (processing_units (format_unit f t r s)) = length (processing_units s)"
  "writer_unit_number (format_unit f t r s) = writer_unit_number s"
  "collector_unit_number (format_unit f t r s) = collector_unit_number s"
  "producer (format_unit f t r s) = producer s"
  "collector (format_unit f t r s) = collector s"
  "pool (format_unit f t r s) = (pool s)(t \<mapsto> Formatted r)"
  "tickets (format_unit f t r s) = tickets s"
  "out (format_unit f t r s) = out s"
  "statistics (format_unit f t r s) = statistics s"
  "collected_finalize (format_unit f t r s) = collected_finalize s"
  "claimed_upto (format_unit f t r s) = claimed_upto s"
  "released_upto (format_unit f t r s) = released_upto s"
  "appended_upto (format_unit f t r s) = appended_upto s"
  by (simp_all add: format_unit_def set_unit_def unit_of_def fun_eq_iff Let_def
      claimed_upto_def released_upto_def appended_upto_def)

lemma format_unit_of:
  "unit_of (format_unit f t r s) = unit_of (set_unit t (formatted_unit f s t) s)"
  by (simp add: format_unit_def set_unit_def unit_of_def fun_eq_iff Let_def)

lemma Format_preserves:
  assumes inv: "ring_inv f s" and task: "pool s t0 = Some (Scheduled r)"
  shows "ring_inv f (format_unit f t0 r s)"
proof -
  let ?s = "format_unit f t0 r s"
  let ?u = "formatted_unit f s t0"
  note b = ring_invD(1) [OF inv] and busy = ring_invD(2) [OF inv] and free = ring_invD(3) [OF inv]
    and pl = ring_invD(4) [OF inv] and pr = ring_invD(5) [OF inv] and co = ring_invD(6) [OF inv]
    and ou = ring_invD(7) [OF inv] and fi = ring_invD(8) [OF inv]
  from pl task have t0: "released_upto s \<le> t0" "t0 < writer_unit_number s"
    "status (unit_of s t0) = READY_TO_FORMAT"
    by (auto simp: inv_pool_def)
  from b t0 claimed_upto_bounds [of s]
  have win: "t0 < claimed_upto s" "t0 < released_upto s + length (processing_units s)"
    "t0 < length (tickets s)"
    by (auto simp: inv_bounds_def)
  have unit: "unit_of ?s t = (if t = t0 then ?u else unit_of s t)"
    if "released_upto s \<le> t" "t < released_upto s + length (processing_units s)" for t
    using that t0 win by (simp add: format_unit_of unit_of_set_unit [of "released_upto s"])
  from busy t0 win have tk: "unit_type (unit_of s t0) = fst (tickets s ! t0)"
    "chunk (unit_of s t0) = fst (snd (tickets s ! t0))"
    by (auto simp: inv_busy_def)
  have bytes: "visible ?u = expected f (tickets s ! t0)"
  proof (cases "fst (tickets s ! t0) = FINALIZE")
    case True
    with fi win have "statistics s = snd (snd (tickets s ! t0))"
      by (auto simp: inv_finalize_def)
    with True tk show ?thesis
      by (cases "tickets s ! t0") (auto simp: formatted_unit_simps expected_def)
  next
    case False
    with tk show ?thesis
      using format_one_statistics [of "fst (tickets s ! t0)" f]
      by (cases "tickets s ! t0") (auto simp: formatted_unit_simps expected_def)
  qed
  have 1: "inv_bounds ?s"
    using b by (simp add: inv_bounds_def format_fields)
  have 2: "inv_busy f ?s"
    unfolding inv_busy_def
  proof (intro allI impI)
    fix t assume t: "released_upto ?s \<le> t \<and> t < claimed_upto ?s"
    then have "released_upto s \<le> t" "t < released_upto s + length (processing_units s)"
      using b by (auto simp: format_fields inv_bounds_def)
    note u = unit [OF this]
    from busy t have old: "status (unit_of s t) \<noteq> READY_TO_INSERT"
      "unit_type (unit_of s t) = fst (tickets s ! t)"
      "chunk (unit_of s t) = fst (snd (tickets s ! t))"
      "status (unit_of s t) = READY_TO_READ \<or> (\<exists>r. pool s t = Some (Formatted r)) \<longrightarrow>
         visible (unit_of s t) = expected f (tickets s ! t)"
      by (auto simp: inv_busy_def format_fields)
    show "status (unit_of ?s t) \<noteq> READY_TO_INSERT \<and>
        unit_type (unit_of ?s t) = fst (tickets ?s ! t) \<and>
        chunk (unit_of ?s t) = fst (snd (tickets ?s ! t)) \<and>
        (status (unit_of ?s t) = READY_TO_READ \<or> (\<exists>r. pool ?s t = Some (Formatted r)) \<longrightarrow>
           visible (unit_of ?s t) = expected f (tickets ?s ! t))"
      using old bytes by (auto simp: u format_fields formatted_unit_simps)
  qed
  have 3: "inv_free ?s"
    unfolding inv_free_def
  proof (intro allI impI)
    fix t assume t: "claimed_upto ?s \<le> t \<and> t < released_upto ?s + length (processing_units ?s)"
    then have "released_upto s \<le> t" "t < released_upto s + length (processing_units s)" "t \<noteq> t0"
      using b win t0 by (auto simp: format_fields inv_bounds_def)
    with unit [of t] free t show "status (unit_of ?s t) = READY_TO_INSERT"
      by (auto simp: inv_free_def format_fields)
  qed
  have 4: "inv_pool ?s"
    unfolding inv_pool_def
  proof (intro allI impI)
    fix t task assume p: "pool ?s t = Some task"
    show "released_upto ?s \<le> t \<and> t < writer_unit_number ?s \<and>
        status (unit_of ?s t) = READY_TO_FORMAT"
    proof (cases "t = t0")
      case True
      with unit [of t0] t0 win show ?thesis
        by (simp add: format_fields formatted_unit_simps)
    next
      case False
      with p have "pool s t = Some task" by (simp add: format_fields)
      with pl have old: "released_upto s \<le> t" "t < writer_unit_number s"
        "status (unit_of s t) = READY_TO_FORMAT"
        by (auto simp: inv_pool_def)
      with b claimed_upto_bounds [of s]
      have "t < released_upto s + length (processing_units s)"
        by (auto simp: inv_bounds_def)
      with unit [of t] old False show ?thesis
        by (simp add: format_fields)
    qed
  qed
  have 5: "inv_producer ?s"
    unfolding inv_producer_def
  proof (intro conjI allI impI)
    fix c k assume "producer ?s = Passed c k"
    with pr show "writer_unit_number ?s < released_upto ?s + length (processing_units ?s)"
      "FINALIZE \<notin> fst ` set (tickets ?s)"
      by (auto simp: inv_producer_def format_fields)
  next
    fix r' assume p: "producer ?s = Claimed r'"
    then have "claimed_upto s = Suc (writer_unit_number s)"
      by (simp add: format_fields claimed_upto_cases)
    with b have "released_upto s \<le> writer_unit_number s"
      "writer_unit_number s < released_upto s + length (processing_units s)"
      by (auto simp: inv_bounds_def)
    with unit [of "writer_unit_number s"] t0 pr p
    show "status (unit_of ?s (writer_unit_number ?s)) = READY_TO_FORMAT"
      by (auto simp: inv_producer_def format_fields)
  next
    fix r' assume p: "producer ?s = Incremented r'"
    with pr have old: "released_upto s < writer_unit_number s"
      "status (unit_of s (writer_unit_number s - 1)) = READY_TO_FORMAT"
      "pool s (writer_unit_number s - 1) = None"
      by (auto simp: inv_producer_def format_fields)
    with b claimed_upto_bounds [of s]
    have "released_upto s \<le> writer_unit_number s - 1"
      "writer_unit_number s - 1 < released_upto s + length (processing_units s)"
      by (auto simp: inv_bounds_def)
    with unit [of "writer_unit_number s - 1"] old task
    show "released_upto ?s < writer_unit_number ?s"
      "status (unit_of ?s (writer_unit_number ?s - 1)) = READY_TO_FORMAT"
      "pool ?s (writer_unit_number ?s - 1) = None"
      by (auto simp: format_fields)
  qed
  have 6: "inv_collector ?s"
    unfolding inv_collector_def
  proof (intro conjI impI)
    assume c: "collector ?s = Appended \<or> collector ?s = Flushed"
    with co have old: "collector_unit_number s < claimed_upto s"
      "status (unit_of s (collector_unit_number s)) = READY_TO_READ"
      by (auto simp: inv_collector_def format_fields)
    from c have "released_upto s = collector_unit_number s"
      by (auto simp: format_fields released_upto_cases)
    with b old have "released_upto s \<le> collector_unit_number s"
      "collector_unit_number s < released_upto s + length (processing_units s)"
      by (auto simp: inv_bounds_def)
    with unit [of "collector_unit_number s"] old t0
    show "collector_unit_number ?s < claimed_upto ?s"
      "status (unit_of ?s (collector_unit_number ?s)) = READY_TO_READ"
      by (auto simp: format_fields)
  next
    assume "collected_finalize ?s"
    with co show "collector ?s = Exited" "collector_unit_number ?s < claimed_upto ?s"
      "fst (tickets ?s ! collector_unit_number ?s) = FINALIZE"
      by (auto simp: inv_collector_def format_fields)
  qed
  have 7: "inv_out f ?s"
    using ou inv_out_cong [of ?s s f] by (simp add: format_fields)
  have 8: "inv_finalize ?s"
    using fi inv_finalize_cong [of ?s s] by (simp add: format_fields)
  show ?thesis
    by (rule ring_invI) (fact 1 2 3 4 5 6 7 8)+
qed

subsubsection \<open>Publish\<close>

lemma publish_fields:
  "length (processing_units (publish_unit t s)) = length (processing_units s)"
  "writer_unit_number (publish_unit t s) = writer_unit_number s"
  "collector_unit_number (publish_unit t s) = collector_unit_number s"
  "producer (publish_unit t s) = producer s"
  "collector (publish_unit t s) = collector s"
  "pool (publish_unit t s) = (pool s)(t := None)"
  "tickets (publish_unit t s) = tickets s"
  "out (publish_unit t s) = out s"
  "statistics (publish_unit t s) = statistics s"
  "collected_finalize (publish_unit t s) = collected_finalize s"
  "claimed_upto (publish_unit t s) = claimed_upto s"
  "released_upto (publish_unit t s) = released_upto s"
  "appended_upto (publish_unit t s) = appended_upto s"
  by (simp_all add: publish_unit_def set_unit_def unit_of_def fun_eq_iff
      claimed_upto_def released_upto_def appended_upto_def)

lemma publish_unit_of:
  "unit_of (publish_unit t s) = unit_of (set_unit t ((unit_of s t)\<lparr>status := READY_TO_READ\<rparr>) s)"
  by (simp add: publish_unit_def set_unit_def unit_of_def fun_eq_iff)

lemma Publish_preserves:
  assumes inv: "ring_inv f s" and task: "pool s t0 = Some (Formatted r)"
  shows "ring_inv f (publish_unit t0 s)"
proof -
  let ?s = "publish_unit t0 s"
  let ?u = "(unit_of s t0)\<lparr>status := READY_TO_READ\<rparr>"
  from inv have b: "inv_bounds s" and busy: "inv_busy f s" and free: "inv_free s"
    and pl: "inv_pool s" and pr: "inv_producer s" and co: "inv_collector s"
    and ou: "inv_out f s" and fi: "inv_finalize s"
    by (simp_all add: ring_inv_def)
  from pl task have t0: "released_upto s \<le> t0" "t0 < writer_unit_number s"
    "status (unit_of s t0) = READY_TO_FORMAT"
    by (auto simp: inv_pool_def)
  from b t0 claimed_upto_bounds [of s]
  have win: "t0 < claimed_upto s" "t0 < released_upto s + length (processing_units s)"
    by (auto simp: inv_bounds_def)
  have unit: "unit_of ?s t = (if t = t0 then ?u else unit_of s t)"
    if "released_upto s \<le> t" "t < released_upto s + length (processing_units s)" for t
    using that t0 win by (simp add: publish_unit_of unit_of_set_unit [of "released_upto s"])
  have 1: "inv_bounds ?s"
    using b by (simp add: inv_bounds_def publish_fields)
  have 2: "inv_busy f ?s"
    unfolding inv_busy_def
  proof (intro allI impI)
    fix t assume t: "released_upto ?s \<le> t \<and> t < claimed_upto ?s"
    then have "released_upto s \<le> t" "t < released_upto s + length (processing_units s)"
      using b by (auto simp: publish_fields inv_bounds_def)
    note u = unit [OF this]
    from busy t have old: "status (unit_of s t) \<noteq> READY_TO_INSERT"
      "unit_type (unit_of s t) = fst (tickets s ! t)"
      "chunk (unit_of s t) = fst (snd (tickets s ! t))"
      "status (unit_of s t) = READY_TO_READ \<or> (\<exists>r. pool s t = Some (Formatted r)) \<longrightarrow>
         visible (unit_of s t) = expected f (tickets s ! t)"
      by (auto simp: inv_busy_def publish_fields)
    show "status (unit_of ?s t) \<noteq> READY_TO_INSERT \<and>
        unit_type (unit_of ?s t) = fst (tickets ?s ! t) \<and>
        chunk (unit_of ?s t) = fst (snd (tickets ?s ! t)) \<and>
        (status (unit_of ?s t) = READY_TO_READ \<or> (\<exists>r. pool ?s t = Some (Formatted r)) \<longrightarrow>
           visible (unit_of ?s t) = expected f (tickets ?s ! t))"
      using old task by (auto simp: u publish_fields visible_def)
  qed
  have 3: "inv_free ?s"
    unfolding inv_free_def
  proof (intro allI impI)
    fix t assume t: "claimed_upto ?s \<le> t \<and> t < released_upto ?s + length (processing_units ?s)"
    then have "released_upto s \<le> t" "t < released_upto s + length (processing_units s)" "t \<noteq> t0"
      using b win t0 by (auto simp: publish_fields inv_bounds_def)
    with unit [of t] free t show "status (unit_of ?s t) = READY_TO_INSERT"
      by (auto simp: inv_free_def publish_fields)
  qed
  have 4: "inv_pool ?s"
    unfolding inv_pool_def
  proof (intro allI impI)
    fix t task assume "pool ?s t = Some task"
    then have t: "t \<noteq> t0" "pool s t = Some task"
      by (auto simp: publish_fields split: if_splits)
    with pl have old: "released_upto s \<le> t" "t < writer_unit_number s"
      "status (unit_of s t) = READY_TO_FORMAT"
      by (auto simp: inv_pool_def)
    with b claimed_upto_bounds [of s]
    have "t < released_upto s + length (processing_units s)"
      by (auto simp: inv_bounds_def)
    with unit [of t] old t
    show "released_upto ?s \<le> t \<and> t < writer_unit_number ?s \<and>
        status (unit_of ?s t) = READY_TO_FORMAT"
      by (simp add: publish_fields)
  qed
  have 5: "inv_producer ?s"
    unfolding inv_producer_def
  proof (intro conjI allI impI)
    fix c k assume "producer ?s = Passed c k"
    with pr show "writer_unit_number ?s < released_upto ?s + length (processing_units ?s)"
      "FINALIZE \<notin> fst ` set (tickets ?s)"
      by (auto simp: inv_producer_def publish_fields)
  next
    fix r' assume p: "producer ?s = Claimed r'"
    then have "claimed_upto s = Suc (writer_unit_number s)"
      by (simp add: publish_fields claimed_upto_cases)
    with b have "released_upto s \<le> writer_unit_number s"
      "writer_unit_number s < released_upto s + length (processing_units s)"
      by (auto simp: inv_bounds_def)
    with unit [of "writer_unit_number s"] t0 pr p
    show "status (unit_of ?s (writer_unit_number ?s)) = READY_TO_FORMAT"
      by (auto simp: inv_producer_def publish_fields)
  next
    fix r' assume p: "producer ?s = Incremented r'"
    with pr have old: "released_upto s < writer_unit_number s"
      "status (unit_of s (writer_unit_number s - 1)) = READY_TO_FORMAT"
      "pool s (writer_unit_number s - 1) = None"
      by (auto simp: inv_producer_def publish_fields)
    with b claimed_upto_bounds [of s]
    have "released_upto s \<le> writer_unit_number s - 1"
      "writer_unit_number s - 1 < released_upto s + length (processing_units s)"
      by (auto simp: inv_bounds_def)
    with unit [of "writer_unit_number s - 1"] old task
    show "released_upto ?s < writer_unit_number ?s"
      "status (unit_of ?s (writer_unit_number ?s - 1)) = READY_TO_FORMAT"
      "pool ?s (writer_unit_number ?s - 1) = None"
      by (auto simp: publish_fields)
  qed
  have 6: "inv_collector ?s"
    unfolding inv_collector_def
  proof (intro conjI impI)
    assume c: "collector ?s = Appended \<or> collector ?s = Flushed"
    with co have old: "collector_unit_number s < claimed_upto s"
      "status (unit_of s (collector_unit_number s)) = READY_TO_READ"
      by (auto simp: inv_collector_def publish_fields)
    from c have "released_upto s = collector_unit_number s"
      by (auto simp: publish_fields released_upto_cases)
    with b old have "released_upto s \<le> collector_unit_number s"
      "collector_unit_number s < released_upto s + length (processing_units s)"
      by (auto simp: inv_bounds_def)
    with unit [of "collector_unit_number s"] old
    show "collector_unit_number ?s < claimed_upto ?s"
      "status (unit_of ?s (collector_unit_number ?s)) = READY_TO_READ"
      by (auto simp: publish_fields)
  next
    assume "collected_finalize ?s"
    with co show "collector ?s = Exited" "collector_unit_number ?s < claimed_upto ?s"
      "fst (tickets ?s ! collector_unit_number ?s) = FINALIZE"
      by (auto simp: inv_collector_def publish_fields)
  qed
  have 7: "inv_out f ?s"
    using ou inv_out_cong [of ?s s f] by (simp add: publish_fields)
  have 8: "inv_finalize ?s"
    using fi inv_finalize_cong [of ?s s] by (simp add: publish_fields)
  show ?thesis
    by (simp add: ring_inv_def 1 2 3 4 5 6 7 8)
qed

subsubsection \<open>Fail\<close>

lemma fail_fields:
  "length (processing_units (fail_unit t e s)) = length (processing_units (s))"
  "writer_unit_number (fail_unit t e s) = writer_unit_number (s)"
  "collector_unit_number (fail_unit t e s) = collector_unit_number (s)"
  "producer (fail_unit t e s) = producer (s)"
  "collector (fail_unit t e s) = collector (s)"
  "pool (fail_unit t e s) = (pool s)(t := None)"
  "tickets (fail_unit t e s) = tickets (s)"
  "out (fail_unit t e s) = out (s)"
  "statistics (fail_unit t e s) = statistics (s)"
  "collected_finalize (fail_unit t e s) = collected_finalize (s)"
  "unit_of (fail_unit t e s) = unit_of (s)"
  "claimed_upto (fail_unit t e s) = claimed_upto (s)"
  "released_upto (fail_unit t e s) = released_upto (s)"
  "appended_upto (fail_unit t e s) = appended_upto (s)"
  by (simp_all add: fail_unit_def onBackgroundException_def unit_of_def fun_eq_iff Let_def
      claimed_upto_def released_upto_def appended_upto_def)

lemma Fail_preserves:
  assumes inv: "ring_inv f s"
  shows "ring_inv f (fail_unit t e s)"
proof -
  let ?s = "fail_unit t e s"
  note b = ring_invD(1) [OF inv] and busy = ring_invD(2) [OF inv] and free = ring_invD(3) [OF inv]
    and pl = ring_invD(4) [OF inv] and pr = ring_invD(5) [OF inv] and co = ring_invD(6) [OF inv]
    and ou = ring_invD(7) [OF inv] and fi = ring_invD(8) [OF inv]
  have 1: "inv_bounds ?s"
    using b inv_bounds_cong [of ?s s] 
    by (simp add: fail_fields)
  have 2: "inv_busy f ?s"
    using busy
    by (auto simp: inv_busy_def fail_fields)
  have 3: "inv_free ?s"
    using free inv_free_cong [of ?s s] 
    by (simp add: fail_fields)
  have 4: "inv_pool ?s"
    using pl
    by (auto simp: inv_pool_def fail_fields)
  have 5: "inv_producer ?s"
    using pr
    by (auto simp: inv_producer_def fail_fields)
  have 6: "inv_collector ?s"
    using co inv_collector_cong [of ?s s] 
    by (simp add: fail_fields)
  have 7: "inv_out f ?s"
    using ou inv_out_cong [of ?s s f] 
    by (simp add: fail_fields)
  have 8: "inv_finalize ?s"
    using fi inv_finalize_cong [of ?s s] 
    by (simp add: fail_fields)

  show ?thesis
    by (rule ring_invI) (fact 1 2 3 4 5 6 7 8)+
qed

subsubsection \<open>Append\<close>

lemma append_fields:
  "length (processing_units (collect_append s)) = length (processing_units s)"
  "writer_unit_number (collect_append s) = writer_unit_number s"
  "collector_unit_number (collect_append s) = collector_unit_number s"
  "producer (collect_append s) = producer s"
  "collector (collect_append s) =
     (if unit_type (unit_of s (collector_unit_number s)) = FINALIZE then Exited else Appended)"
  "pool (collect_append s) = pool s"
  "tickets (collect_append s) = tickets s"
  "out (collect_append s) = out s @ visible (unit_of s (collector_unit_number s))"
  "statistics (collect_append s) = statistics s"
  "collected_finalize (collect_append s) =
     (collected_finalize s \<or> unit_type (unit_of s (collector_unit_number s)) = FINALIZE)"
  "unit_of (collect_append s) = unit_of s"
  "claimed_upto (collect_append s) = claimed_upto s"
  "released_upto (collect_append s) = collector_unit_number s"
  "appended_upto (collect_append s) = Suc (collector_unit_number s)"
  by (simp_all add: collect_append_def unit_of_def fun_eq_iff Let_def visible_def
      claimed_upto_def released_upto_def appended_upto_def split: ProcessingUnitType.splits)

lemma collector_in_window:
  assumes b: "inv_bounds s" and free: "inv_free s"
    and c: "released_upto s = collector_unit_number s"
    and u: "status (unit_of s (collector_unit_number s)) \<noteq> READY_TO_INSERT"
  shows "collector_unit_number s < claimed_upto s"
proof (rule ccontr)
  assume "\<not> ?thesis"
  with b c have "claimed_upto s \<le> collector_unit_number s"
    "collector_unit_number s < released_upto s + length (processing_units s)"
    by (auto simp: inv_bounds_def)
  with free u show False by (auto simp: inv_free_def)
qed

lemma single_threaded_output_snoc:
  "n < length ts \<Longrightarrow>
     single_threaded_output f (take (Suc n) ts) =
       single_threaded_output f (take n ts) @ expected f (ts ! n)"
  by (simp add: single_threaded_output_def take_Suc_conv_app_nth)

lemma Append_preserves:
  assumes inv: "ring_inv f s" and g: "collector_ready s"
  shows "ring_inv f (collect_append s)"
proof -
  let ?s = "collect_append s"
  let ?c = "collector_unit_number s"
  note b = ring_invD(1) [OF inv] and busy = ring_invD(2) [OF inv] and free = ring_invD(3) [OF inv]
    and pl = ring_invD(4) [OF inv] and pr = ring_invD(5) [OF inv] and co = ring_invD(6) [OF inv]
    and ou = ring_invD(7) [OF inv] and fi = ring_invD(8) [OF inv]
  from g have w: "collector s = Waiting" and rd: "status (unit_of s ?c) = READY_TO_READ"
    by (simp_all add: collector_ready_def)
  have cc: "released_upto s = ?c" and ap: "appended_upto s = ?c"
    using w by (simp_all add: released_upto_cases appended_upto_cases)
  have inwin: "?c < claimed_upto s"
    using collector_in_window [OF b free cc] rd by simp
  from busy cc inwin rd have unit: "unit_type (unit_of s ?c) = fst (tickets s ! ?c)"
    "visible (unit_of s ?c) = expected f (tickets s ! ?c)"
    by (auto simp: inv_busy_def)
  from co w have nofin: "\<not> collected_finalize s"
    by (auto simp: inv_collector_def)
  have 1: "inv_bounds ?s"
    using b inv_bounds_cong [of ?s s] cc by (simp add: append_fields)
  have 2: "inv_busy f ?s"
    using busy inv_busy_cong [of ?s s f] cc by (simp add: append_fields)
  have 3: "inv_free ?s"
    using free inv_free_cong [of ?s s] cc by (simp add: append_fields)
  have 4: "inv_pool ?s"
    using pl inv_pool_cong [of ?s s] cc by (simp add: append_fields)
  have 5: "inv_producer ?s"
    using pr inv_producer_cong [of ?s s] cc by (simp add: append_fields)
  have 6: "inv_collector ?s"
    using inwin rd unit nofin by (simp add: inv_collector_def append_fields)
  have 7: "inv_out f ?s"
  proof -
    from ou w ap have "out s = single_threaded_output f (take ?c (tickets s))"
      by (auto simp: inv_out_def torn_def)
    moreover from b inwin have "?c < length (tickets s)"
      by (simp add: inv_bounds_def)
    ultimately have "out ?s = single_threaded_output f (take (Suc ?c) (tickets s)) @ []"
      using unit by (simp add: append_fields single_threaded_output_snoc)
    then show ?thesis
      unfolding inv_out_def torn_def append_fields by blast
  qed
  have 8: "inv_finalize ?s"
    using fi inv_finalize_cong [of ?s s] by (simp add: append_fields)
  show ?thesis
    by (rule ring_invI) (fact 1 2 3 4 5 6 7 8)+
qed

subsubsection \<open>Append fails\<close>

lemma append_fails_fields:
  "length (processing_units (collect_fails n e s)) = length (processing_units s)"
  "writer_unit_number (collect_fails n e s) = writer_unit_number s"
  "collector_unit_number (collect_fails n e s) = collector_unit_number s"
  "producer (collect_fails n e s) = producer s"
  "collector (collect_fails n e s) = Exited"
  "pool (collect_fails n e s) = pool s"
  "tickets (collect_fails n e s) = tickets s"
  "out (collect_fails n e s) = out s @ take n (visible (unit_of s (collector_unit_number s)))"
  "statistics (collect_fails n e s) = statistics s"
  "collected_finalize (collect_fails n e s) = collected_finalize s"
  "unit_of (collect_fails n e s) = unit_of s"
  "claimed_upto (collect_fails n e s) = claimed_upto s"
  "released_upto (collect_fails n e s) = collector_unit_number s"
  "appended_upto (collect_fails n e s) =
     (if collected_finalize s then Suc (collector_unit_number s) else collector_unit_number s)"
  by (simp_all add: collect_fails_def onBackgroundException_def unit_of_def fun_eq_iff Let_def
      visible_def claimed_upto_def released_upto_def appended_upto_def)

lemma Append_fails_preserves:
  assumes inv: "ring_inv f s" and g: "collector_ready s"
  shows "ring_inv f (collect_fails n e s)"
proof -
  let ?s = "collect_fails n e s"
  let ?c = "collector_unit_number s"
  note b = ring_invD(1) [OF inv] and busy = ring_invD(2) [OF inv] and free = ring_invD(3) [OF inv]
    and pl = ring_invD(4) [OF inv] and pr = ring_invD(5) [OF inv] and co = ring_invD(6) [OF inv]
    and ou = ring_invD(7) [OF inv] and fi = ring_invD(8) [OF inv]
  from g have w: "collector s = Waiting" and rd: "status (unit_of s ?c) = READY_TO_READ"
    by (simp_all add: collector_ready_def)
  have cc: "released_upto s = ?c" and ap: "appended_upto s = ?c"
    using w by (simp_all add: released_upto_cases appended_upto_cases)
  have inwin: "?c < claimed_upto s"
    using collector_in_window [OF b free cc] rd by simp
  from busy cc inwin rd have unit: "visible (unit_of s ?c) = expected f (tickets s ! ?c)"
    by (auto simp: inv_busy_def)
  from co w have nofin: "\<not> collected_finalize s"
    by (auto simp: inv_collector_def)
  have 1: "inv_bounds ?s"
    using b inv_bounds_cong [of ?s s] cc by (simp add: append_fails_fields)
  have 2: "inv_busy f ?s"
    using busy inv_busy_cong [of ?s s f] cc by (simp add: append_fails_fields)
  have 3: "inv_free ?s"
    using free inv_free_cong [of ?s s] cc by (simp add: append_fails_fields)
  have 4: "inv_pool ?s"
    using pl inv_pool_cong [of ?s s] cc by (simp add: append_fails_fields)
  have 5: "inv_producer ?s"
    using pr inv_producer_cong [of ?s s] cc by (simp add: append_fails_fields)
  have 6: "inv_collector ?s"
    using nofin by (simp add: inv_collector_def append_fails_fields)
  have 7: "inv_out f ?s"
  proof -
    from ou w ap have "out s = single_threaded_output f (take ?c (tickets s))"
      by (auto simp: inv_out_def torn_def)
    moreover from b inwin have "?c < length (tickets s)"
      by (simp add: inv_bounds_def)
    ultimately show ?thesis
      unfolding inv_out_def torn_def using unit nofin
      by (auto simp: append_fails_fields)
  qed
  have 8: "inv_finalize ?s"
    using fi inv_finalize_cong [of ?s s] by (simp add: append_fails_fields)
  show ?thesis
    by (rule ring_invI) (fact 1 2 3 4 5 6 7 8)+
qed

subsubsection \<open>Stop\<close>

lemma stop_fields:
  "length (processing_units (collect_stop s)) = length (processing_units (s))"
  "writer_unit_number (collect_stop s) = writer_unit_number (s)"
  "collector_unit_number (collect_stop s) = collector_unit_number (s)"
  "producer (collect_stop s) = producer (s)"
  "collector (collect_stop s) = Exited"
  "pool (collect_stop s) = pool (s)"
  "tickets (collect_stop s) = tickets (s)"
  "out (collect_stop s) = out (s)"
  "statistics (collect_stop s) = statistics (s)"
  "collected_finalize (collect_stop s) = collected_finalize (s)"
  "unit_of (collect_stop s) = unit_of (s)"
  "claimed_upto (collect_stop s) = claimed_upto (s)"
  "released_upto (collect_stop s) = collector_unit_number s"
  "appended_upto (collect_stop s) = (if collected_finalize s then Suc (collector_unit_number s) else collector_unit_number s)"
  by (simp_all add: collect_stop_def unit_of_def fun_eq_iff Let_def
      claimed_upto_def released_upto_def appended_upto_def)

lemma Stop_preserves:
  assumes inv: "ring_inv f s" and g: "collector s = Waiting"
  shows "ring_inv f (collect_stop s)"
proof -
  let ?s = "collect_stop s"
  note b = ring_invD(1) [OF inv] and busy = ring_invD(2) [OF inv] and free = ring_invD(3) [OF inv]
    and pl = ring_invD(4) [OF inv] and pr = ring_invD(5) [OF inv] and co = ring_invD(6) [OF inv]
    and ou = ring_invD(7) [OF inv] and fi = ring_invD(8) [OF inv]
  have 1: "inv_bounds ?s"
    using b inv_bounds_cong [of ?s s] g claimed_upto_cases [of s] released_upto_cases [of s] appended_upto_cases [of s]
    by (simp add: stop_fields)
  have 2: "inv_busy f ?s"
    using busy inv_busy_cong [of ?s s f] g claimed_upto_cases [of s] released_upto_cases [of s] appended_upto_cases [of s]
    by (simp add: stop_fields)
  have 3: "inv_free ?s"
    using free inv_free_cong [of ?s s] g claimed_upto_cases [of s] released_upto_cases [of s] appended_upto_cases [of s]
    by (simp add: stop_fields)
  have 4: "inv_pool ?s"
    using pl inv_pool_cong [of ?s s] g claimed_upto_cases [of s] released_upto_cases [of s] appended_upto_cases [of s]
    by (simp add: stop_fields)
  have 5: "inv_producer ?s"
    using pr inv_producer_cong [of ?s s] g claimed_upto_cases [of s] released_upto_cases [of s] appended_upto_cases [of s]
    by (simp add: stop_fields)
  have 6: "inv_collector ?s"
    using co g
    by (auto simp: inv_collector_def stop_fields)
  have 7: "inv_out f ?s"
    using ou co g appended_upto_cases(1) [of s]
    by (auto simp: inv_out_def torn_def inv_collector_def stop_fields)
  have 8: "inv_finalize ?s"
    using fi inv_finalize_cong [of ?s s] 
    by (simp add: stop_fields)

  show ?thesis
    by (rule ring_invI) (fact 1 2 3 4 5 6 7 8)+
qed

subsubsection \<open>Flush\<close>

lemma flush_fields:
  "length (processing_units (collect_flush s)) = length (processing_units (s))"
  "writer_unit_number (collect_flush s) = writer_unit_number (s)"
  "collector_unit_number (collect_flush s) = collector_unit_number (s)"
  "producer (collect_flush s) = producer (s)"
  "collector (collect_flush s) = Flushed"
  "pool (collect_flush s) = pool (s)"
  "tickets (collect_flush s) = tickets (s)"
  "out (collect_flush s) = out (s)"
  "statistics (collect_flush s) = statistics (s)"
  "collected_finalize (collect_flush s) = collected_finalize (s)"
  "unit_of (collect_flush s) = unit_of (s)"
  "claimed_upto (collect_flush s) = claimed_upto (s)"
  "released_upto (collect_flush s) = collector_unit_number s"
  "appended_upto (collect_flush s) = Suc (collector_unit_number s)"
  by (simp_all add: collect_flush_def unit_of_def fun_eq_iff Let_def
      claimed_upto_def released_upto_def appended_upto_def)

lemma Flush_preserves:
  assumes inv: "ring_inv f s" and g: "collector s = Appended"
  shows "ring_inv f (collect_flush s)"
proof -
  let ?s = "collect_flush s"
  note b = ring_invD(1) [OF inv] and busy = ring_invD(2) [OF inv] and free = ring_invD(3) [OF inv]
    and pl = ring_invD(4) [OF inv] and pr = ring_invD(5) [OF inv] and co = ring_invD(6) [OF inv]
    and ou = ring_invD(7) [OF inv] and fi = ring_invD(8) [OF inv]
  have 1: "inv_bounds ?s"
    using b inv_bounds_cong [of ?s s] g claimed_upto_cases [of s] released_upto_cases [of s] appended_upto_cases [of s]
    by (simp add: flush_fields)
  have 2: "inv_busy f ?s"
    using busy inv_busy_cong [of ?s s f] g claimed_upto_cases [of s] released_upto_cases [of s] appended_upto_cases [of s]
    by (simp add: flush_fields)
  have 3: "inv_free ?s"
    using free inv_free_cong [of ?s s] g claimed_upto_cases [of s] released_upto_cases [of s] appended_upto_cases [of s]
    by (simp add: flush_fields)
  have 4: "inv_pool ?s"
    using pl inv_pool_cong [of ?s s] g claimed_upto_cases [of s] released_upto_cases [of s] appended_upto_cases [of s]
    by (simp add: flush_fields)
  have 5: "inv_producer ?s"
    using pr inv_producer_cong [of ?s s] g claimed_upto_cases [of s] released_upto_cases [of s] appended_upto_cases [of s]
    by (simp add: flush_fields)
  have 6: "inv_collector ?s"
    using co g
    by (auto simp: inv_collector_def flush_fields)
  have 7: "inv_out f ?s"
    using ou g appended_upto_cases(2) [of s]
    by (auto simp: inv_out_def torn_def flush_fields)
  have 8: "inv_finalize ?s"
    using fi inv_finalize_cong [of ?s s] 
    by (simp add: flush_fields)

  show ?thesis
    by (rule ring_invI) (fact 1 2 3 4 5 6 7 8)+
qed

subsubsection \<open>Release\<close>

lemma release_fields:
  "length (processing_units (collect_release s)) = length (processing_units s)"
  "writer_unit_number (collect_release s) = writer_unit_number s"
  "collector_unit_number (collect_release s) = collector_unit_number s"
  "producer (collect_release s) = producer s"
  "collector (collect_release s) = Released"
  "pool (collect_release s) = pool s"
  "tickets (collect_release s) = tickets s"
  "out (collect_release s) = out s"
  "statistics (collect_release s) = statistics s"
  "collected_finalize (collect_release s) = collected_finalize s"
  "claimed_upto (collect_release s) = claimed_upto s"
  "released_upto (collect_release s) = Suc (collector_unit_number s)"
  "appended_upto (collect_release s) = Suc (collector_unit_number s)"
  by (simp_all add: collect_release_def set_unit_def unit_of_def fun_eq_iff Let_def
      claimed_upto_def released_upto_def appended_upto_def)

lemma release_unit_of:
  "unit_of (collect_release s) =
     unit_of (set_unit (collector_unit_number s)
       ((unit_of s (collector_unit_number s))\<lparr>status := READY_TO_INSERT\<rparr>) s)"
  by (simp add: collect_release_def set_unit_def unit_of_def fun_eq_iff)

lemma Release_preserves:
  assumes inv: "ring_inv f s" and g: "collector s = Flushed"
  shows "ring_inv f (collect_release s)"
proof -
  let ?s = "collect_release s"
  let ?c = "collector_unit_number s"
  let ?w = "writer_unit_number s"
  let ?n = "length (processing_units s)"
  let ?u = "(unit_of s ?c)\<lparr>status := READY_TO_INSERT\<rparr>"
  note b = ring_invD(1) [OF inv] and busy = ring_invD(2) [OF inv] and free = ring_invD(3) [OF inv]
    and pl = ring_invD(4) [OF inv] and pr = ring_invD(5) [OF inv] and co = ring_invD(6) [OF inv]
    and ou = ring_invD(7) [OF inv] and fi = ring_invD(8) [OF inv]
  have cc: "released_upto s = ?c" and ap: "appended_upto s = Suc ?c"
    using g by (simp_all add: released_upto_cases appended_upto_cases)
  from co g have inwin: "?c < claimed_upto s" and rd: "status (unit_of s ?c) = READY_TO_READ"
    by (auto simp: inv_collector_def)
  from co g have nofin: "\<not> collected_finalize s"
    by (auto simp: inv_collector_def)
  from b cc have n: "0 < ?n" and cw: "claimed_upto s \<le> ?c + ?n" and cle: "?c \<le> ?w"
    by (auto simp: inv_bounds_def)
  have below: "?c < ?w"
  proof (rule ccontr)
    assume "\<not> ?thesis"
    with cle inwin claimed_upto_bounds [of s] have eq: "?c = ?w" "claimed_upto s = Suc ?w"
      by auto
    then obtain r where "producer s = Claimed r"
      by (cases "producer s") (auto simp: claimed_upto_def)
    with pr have "status (unit_of s ?w) = READY_TO_FORMAT"
      by (auto simp: inv_producer_def)
    with rd eq show False by simp
  qed
  have unit: "unit_of ?s t = (if t = ?c then ?u else unit_of s t)"
    if "?c \<le> t" "t < ?c + ?n" for t
    using that n by (simp add: release_unit_of unit_of_set_unit [of ?c])
  have wrapped: "unit_of ?s (?c + ?n) = ?u"
    using unit [of ?c] n unit_of_wrap [of ?s ?c] by (simp add: release_fields)
  have 1: "inv_bounds ?s"
    using b below cw by (simp add: inv_bounds_def release_fields)
  have 2: "inv_busy f ?s"
    unfolding inv_busy_def
  proof (intro allI impI)
    fix t assume t: "released_upto ?s \<le> t \<and> t < claimed_upto ?s"
    then have "?c \<le> t" "t < ?c + ?n" "t \<noteq> ?c"
      using cw by (auto simp: release_fields)
    note u = unit [OF this(1,2)] this(3)
    from busy t cc have old: "status (unit_of s t) \<noteq> READY_TO_INSERT"
      "unit_type (unit_of s t) = fst (tickets s ! t)"
      "chunk (unit_of s t) = fst (snd (tickets s ! t))"
      "status (unit_of s t) = READY_TO_READ \<or> (\<exists>r. pool s t = Some (Formatted r)) \<longrightarrow>
         visible (unit_of s t) = expected f (tickets s ! t)"
      by (auto simp: inv_busy_def release_fields)
    show "status (unit_of ?s t) \<noteq> READY_TO_INSERT \<and>
        unit_type (unit_of ?s t) = fst (tickets ?s ! t) \<and>
        chunk (unit_of ?s t) = fst (snd (tickets ?s ! t)) \<and>
        (status (unit_of ?s t) = READY_TO_READ \<or> (\<exists>r. pool ?s t = Some (Formatted r)) \<longrightarrow>
           visible (unit_of ?s t) = expected f (tickets ?s ! t))"
      using old by (auto simp: u release_fields)
  qed
  have 3: "inv_free ?s"
    unfolding inv_free_def
  proof (intro allI impI)
    fix t assume t: "claimed_upto ?s \<le> t \<and> t < released_upto ?s + length (processing_units ?s)"
    show "status (unit_of ?s t) = READY_TO_INSERT"
    proof (cases "t = ?c + ?n")
      case True
      with wrapped show ?thesis by simp
    next
      case False
      with t inwin have "?c \<le> t" "t < ?c + ?n" "t \<noteq> ?c"
        by (auto simp: release_fields)
      with unit [of t] free t cc show ?thesis
        by (auto simp: inv_free_def release_fields)
    qed
  qed
  have 4: "inv_pool ?s"
    unfolding inv_pool_def
  proof (intro allI impI)
    fix t task assume "pool ?s t = Some task"
    with pl cc have old: "?c \<le> t" "t < ?w" "status (unit_of s t) = READY_TO_FORMAT"
      by (auto simp: inv_pool_def release_fields)
    with rd have ne: "t \<noteq> ?c" by auto
    from old cw claimed_upto_bounds [of s] have "t < ?c + ?n" by auto
    with unit [of t] old ne
    show "released_upto ?s \<le> t \<and> t < writer_unit_number ?s \<and>
        status (unit_of ?s t) = READY_TO_FORMAT"
      by (simp add: release_fields)
  qed
  have 5: "inv_producer ?s"
    unfolding inv_producer_def
  proof (intro conjI allI impI)
    fix c k assume "producer ?s = Passed c k"
    with pr cc show "writer_unit_number ?s < released_upto ?s + length (processing_units ?s)"
      "FINALIZE \<notin> fst ` set (tickets ?s)"
      by (auto simp: inv_producer_def release_fields)
  next
    fix r' assume p: "producer ?s = Claimed r'"
    then have "claimed_upto s = Suc ?w"
      by (simp add: release_fields claimed_upto_cases)
    with cw below have "?c \<le> ?w" "?w < ?c + ?n" "?w \<noteq> ?c" by auto
    with unit [of ?w] pr p
    show "status (unit_of ?s (writer_unit_number ?s)) = READY_TO_FORMAT"
      by (auto simp: inv_producer_def release_fields)
  next
    fix r' assume p: "producer ?s = Incremented r'"
    with pr have old: "status (unit_of s (?w - 1)) = READY_TO_FORMAT" "pool s (?w - 1) = None"
      by (auto simp: inv_producer_def release_fields)
    with rd have ne: "?w - 1 \<noteq> ?c" by auto
    with below cw claimed_upto_bounds [of s]
    have "?c \<le> ?w - 1" "?w - 1 < ?c + ?n" "Suc ?c < ?w" by auto
    with unit [of "?w - 1"] old ne
    show "released_upto ?s < writer_unit_number ?s"
      "status (unit_of ?s (writer_unit_number ?s - 1)) = READY_TO_FORMAT"
      "pool ?s (writer_unit_number ?s - 1) = None"
      by (auto simp: release_fields)
  qed
  have 6: "inv_collector ?s"
    using nofin by (simp add: inv_collector_def release_fields)
  have 7: "inv_out f ?s"
    using ou g ap unfolding inv_out_def torn_def by (simp add: release_fields)
  have 8: "inv_finalize ?s"
    using fi inv_finalize_cong [of ?s s] by (simp add: release_fields)
  show ?thesis
    by (rule ring_invI) (fact 1 2 3 4 5 6 7 8)+
qed

subsubsection \<open>Advance\<close>

lemma advance_fields:
  "length (processing_units (collect_increment s)) = length (processing_units (s))"
  "writer_unit_number (collect_increment s) = writer_unit_number (s)"
  "collector_unit_number (collect_increment s) = Suc (collector_unit_number s)"
  "producer (collect_increment s) = producer (s)"
  "collector (collect_increment s) = Waiting"
  "pool (collect_increment s) = pool (s)"
  "tickets (collect_increment s) = tickets (s)"
  "out (collect_increment s) = out (s)"
  "statistics (collect_increment s) = statistics (s)"
  "collected_finalize (collect_increment s) = collected_finalize (s)"
  "unit_of (collect_increment s) = unit_of (s)"
  "claimed_upto (collect_increment s) = claimed_upto (s)"
  "released_upto (collect_increment s) = Suc (collector_unit_number s)"
  "appended_upto (collect_increment s) = Suc (collector_unit_number s)"
  by (simp_all add: collect_increment_def unit_of_def fun_eq_iff Let_def
      claimed_upto_def released_upto_def appended_upto_def)

lemma Advance_preserves:
  assumes inv: "ring_inv f s" and g: "collector s = Released"
  shows "ring_inv f (collect_increment s)"
proof -
  let ?s = "collect_increment s"
  note b = ring_invD(1) [OF inv] and busy = ring_invD(2) [OF inv] and free = ring_invD(3) [OF inv]
    and pl = ring_invD(4) [OF inv] and pr = ring_invD(5) [OF inv] and co = ring_invD(6) [OF inv]
    and ou = ring_invD(7) [OF inv] and fi = ring_invD(8) [OF inv]
  have 1: "inv_bounds ?s"
    using b inv_bounds_cong [of ?s s] g claimed_upto_cases [of s] released_upto_cases [of s] appended_upto_cases [of s]
    by (simp add: advance_fields)
  have 2: "inv_busy f ?s"
    using busy inv_busy_cong [of ?s s f] g claimed_upto_cases [of s] released_upto_cases [of s] appended_upto_cases [of s]
    by (simp add: advance_fields)
  have 3: "inv_free ?s"
    using free inv_free_cong [of ?s s] g claimed_upto_cases [of s] released_upto_cases [of s] appended_upto_cases [of s]
    by (simp add: advance_fields)
  have 4: "inv_pool ?s"
    using pl inv_pool_cong [of ?s s] g claimed_upto_cases [of s] released_upto_cases [of s] appended_upto_cases [of s]
    by (simp add: advance_fields)
  have 5: "inv_producer ?s"
    using pr inv_producer_cong [of ?s s] g claimed_upto_cases [of s] released_upto_cases [of s] appended_upto_cases [of s]
    by (simp add: advance_fields)
  have 6: "inv_collector ?s"
    using co g
    by (auto simp: inv_collector_def advance_fields)
  have 7: "inv_out f ?s"
    using ou g appended_upto_cases(4) [of s]
    by (auto simp: inv_out_def torn_def advance_fields)
  have 8: "inv_finalize ?s"
    using fi inv_finalize_cong [of ?s s] 
    by (simp add: advance_fields)

  show ?thesis
    by (rule ring_invI) (fact 1 2 3 4 5 6 7 8)+
qed

subsubsection \<open>Call statistics\<close>

lemma call_statistics_fields:
  "length (processing_units (update_statistics st s)) = length (processing_units (s))"
  "writer_unit_number (update_statistics st s) = writer_unit_number (s)"
  "collector_unit_number (update_statistics st s) = collector_unit_number (s)"
  "producer (update_statistics st s) = producer (s)"
  "collector (update_statistics st s) = collector (s)"
  "pool (update_statistics st s) = pool (s)"
  "tickets (update_statistics st s) = tickets (s)"
  "out (update_statistics st s) = out (s)"
  "statistics (update_statistics st s) = st"
  "collected_finalize (update_statistics st s) = collected_finalize (s)"
  "unit_of (update_statistics st s) = unit_of (s)"
  "claimed_upto (update_statistics st s) = claimed_upto (s)"
  "released_upto (update_statistics st s) = released_upto (s)"
  "appended_upto (update_statistics st s) = appended_upto (s)"
  by (simp_all add: update_statistics_def unit_of_def fun_eq_iff Let_def
      claimed_upto_def released_upto_def appended_upto_def)

lemma Call_statistics_preserves:
  assumes inv: "ring_inv f s" and g: "FINALIZE \<notin> fst ` set (tickets s)"
  shows "ring_inv f (update_statistics st s)"
proof -
  let ?s = "update_statistics st s"
  note b = ring_invD(1) [OF inv] and busy = ring_invD(2) [OF inv] and free = ring_invD(3) [OF inv]
    and pl = ring_invD(4) [OF inv] and pr = ring_invD(5) [OF inv] and co = ring_invD(6) [OF inv]
    and ou = ring_invD(7) [OF inv] and fi = ring_invD(8) [OF inv]
  have 1: "inv_bounds ?s"
    using b inv_bounds_cong [of ?s s] 
    by (simp add: call_statistics_fields)
  have 2: "inv_busy f ?s"
    using busy inv_busy_cong [of ?s s f] 
    by (simp add: call_statistics_fields)
  have 3: "inv_free ?s"
    using free inv_free_cong [of ?s s] 
    by (simp add: call_statistics_fields)
  have 4: "inv_pool ?s"
    using pl inv_pool_cong [of ?s s] 
    by (simp add: call_statistics_fields)
  have 5: "inv_producer ?s"
    using pr inv_producer_cong [of ?s s] 
    by (simp add: call_statistics_fields)
  have 6: "inv_collector ?s"
    using co inv_collector_cong [of ?s s] 
    by (simp add: call_statistics_fields)
  have 7: "inv_out f ?s"
    using ou inv_out_cong [of ?s s f] 
    by (simp add: call_statistics_fields)
  have 8: "inv_finalize ?s"
    unfolding inv_finalize_def
  proof (intro allI impI)
    fix i assume "i < length (tickets ?s)" "fst (tickets ?s ! i) = FINALIZE"
    then have "FINALIZE \<in> fst ` set (tickets s)"
      by (metis call_statistics_fields(7) image_eqI nth_mem)
    with g show "Suc i = length (tickets ?s) \<and> statistics ?s = snd (snd (tickets ?s ! i))"
      by simp
  qed

  show ?thesis
    by (rule ring_invI) (fact 1 2 3 4 5 6 7 8)+
qed

subsubsection \<open>All steps, and runs\<close>

lemma rethrow_view:
  assumes "rethrowBackgroundException s = Return s' \<or> rethrowBackgroundException s = Throw e s'"
  shows "view s' = view s"
proof (cases "exception_is_rethrown s")
  case True
  with assms show ?thesis by (simp add: rethrowBackgroundException_def)
next
  case False
  with assms have "s' = s\<lparr>exception_is_rethrown := True\<rparr>"
    by (cases "background_exception s") (simp_all add: rethrowBackgroundException_def)
  then show ?thesis by (simp add: view_def)
qed

lemma Enter_preserves:
  assumes inv: "ring_inv f s" and step: "addChunk_enter c k can_throw s = Some s'"
  shows "ring_inv f s'"
proof (cases "emergency_stop s")
  case True
  have "view s' = view s"
  proof (cases can_throw)
    case False
    with True step show ?thesis by (simp add: addChunk_enter_def split: if_splits)
  next
    case throw: True
    show ?thesis
    proof (cases "rethrowBackgroundException s")
      case (Return s1)
      with True throw step have "s1 = s'" by (simp add: addChunk_enter_def split: if_splits)
      with Return show ?thesis using rethrow_view [of s s'] by simp
    next
      case (Throw e s1)
      with True throw step have "s1 = s'" by (simp add: addChunk_enter_def split: if_splits)
      with Throw show ?thesis using rethrow_view [of s s' e] by simp
    next
      case Waits
      with True throw step show ?thesis by (simp add: addChunk_enter_def split: if_splits)
    next
      case Undefined_Behaviour
      with True throw step show ?thesis by (simp add: addChunk_enter_def split: if_splits)
    qed
  qed
  with inv show ?thesis using ring_inv_view [of s' s f] by simp
next
  case False
  with step have "producer s = Outside"
    "status (unit_of s (writer_unit_number s)) = READY_TO_INSERT"
    "FINALIZE \<notin> fst ` set (tickets s)" "s' = s\<lparr>producer := Passed c k\<rparr>"
    by (auto simp: addChunk_enter_def split: if_splits)
  with inv show ?thesis by (simp add: Pass_preserves)
qed

lemma step_preserves:
  assumes "ring_inv f s" and "step f a s = Some s'"
  shows "ring_inv f s'"
proof (cases a)
  case (Enter_addChunk c k can_throw)
  with assms show ?thesis using Enter_preserves [of f s _ _ _ s'] by simp
next
  case Claim
  with assms show ?thesis by (auto simp: Claim_preserves split: producer_pc.splits)
next
  case Increment
  with assms show ?thesis by (auto simp: Increment_preserves split: producer_pc.splits)
next
  case Submit
  with assms show ?thesis by (auto simp: Submit_preserves split: producer_pc.splits)
next
  case (Submit_fails e)
  with assms show ?thesis by (auto simp: Submit_fails_preserves split: producer_pc.splits)
next
  case (Format t)
  with assms show ?thesis
    by (auto simp: Format_preserves split: option.splits task.splits)
next
  case (Publish t)
  with assms show ?thesis
    by (auto simp: Publish_preserves split: option.splits task.splits)
next
  case (Fail t e)
  with assms show ?thesis by (auto simp: Fail_preserves split: option.splits)
next
  case Append
  with assms show ?thesis by (auto simp: Append_preserves split: if_splits)
next
  case (Append_fails n e)
  with assms show ?thesis by (auto simp: Append_fails_preserves split: if_splits)
next
  case Stop
  with assms show ?thesis by (auto simp: Stop_preserves split: if_splits)
next
  case Flush
  with assms show ?thesis by (auto simp: Flush_preserves split: if_splits)
next
  case Release
  with assms show ?thesis by (auto simp: Release_preserves split: if_splits)
next
  case Advance
  with assms show ?thesis by (auto simp: Advance_preserves split: if_splits)
next
  case Call_flush
  with assms show ?thesis by (auto simp: Call_flush_preserves split: if_splits)
next
  case (Call_statistics st)
  with assms show ?thesis by (auto simp: Call_statistics_preserves split: if_splits)
next
  case Cancel
  with assms show ?thesis by (auto simp: Cancel_preserves)
qed

lemma fire_preserves:
  assumes "ring_inv f s" and "fire f a s = Some s'"
  shows "ring_inv f s'"
  using assms step_preserves [of f s a s'] by (simp add: fire_def split: if_splits)

lemma run_preserves:
  "ring_inv f s \<Longrightarrow> run f as s = Some s' \<Longrightarrow> ring_inv f s'"
proof (induction as arbitrary: s)
  case Nil
  then show ?case by simp
next
  case (Cons a as)
  show ?case
  proof (cases "fire f a s")
    case None
    with Cons.prems show ?thesis by simp
  next
    case (Some s1)
    with Cons.prems have "ring_inv f s1" "run f as s1 = Some s'"
      using fire_preserves [of f s a s1] by simp_all
    then show ?thesis by (rule Cons.IH)
  qed
qed

lemma start_fields:
  "processing_units (start p) = processing_units (construct p)"
  "writer_unit_number (start p) = 0" "collector_unit_number (start p) = 0"
  "producer (start p) = Outside" "collector (start p) = Waiting" "pool (start p) = (\<lambda>t. None)"
  "tickets (start p) = []" "out (start p) = []" "collected_finalize (start p) = False"
  by (simp_all add: start_def construct_def ParallelFormattingOutputFormat.defs system.defs)

lemma start_inv:
  assumes "processing_units (construct p) \<noteq> []"
  shows "ring_inv f (start p)"
proof -
  have pos: "claimed_upto (start p) = 0" "released_upto (start p) = 0" "appended_upto (start p) = 0"
    by (simp_all add: claimed_upto_def released_upto_def appended_upto_def start_fields)
  have units: "status (unit_of (start p) t) = READY_TO_INSERT" for t
    using assms
    by (simp add: unit_of_def unit_at_def start_fields construct_def new_ProcessingUnit_def)
  show ?thesis
    using assms
    by (simp add: ring_inv_def inv_defs pos units start_fields single_threaded_output_def)
qed

subsection \<open>Steps follow the cycle\<close>

lemma cycle_step_refl: "cycle_step units units"
  by (simp add: cycle_step_def)

lemma cycle_step_put:
  assumes "units \<noteq> []"
    and "status u = status (unit_at units t) \<or> status u = next_status (status (unit_at units t))"
  shows "cycle_step units (put_unit t u units)"
  using assms by (auto simp: cycle_step_def put_unit_def unit_at_def nth_list_update)

lemma step_cycle:
  assumes inv: "ring_inv f s" and step: "step f a s = Some s'"
  shows "cycle_step (processing_units s) (processing_units s')"
proof -
  note b = ring_invD(1) [OF inv] and free = ring_invD(3) [OF inv] and pl = ring_invD(4) [OF inv]
    and pr = ring_invD(5) [OF inv] and co = ring_invD(6) [OF inv]
  from b have ne: "processing_units s \<noteq> []" by (simp add: inv_bounds_def)
  show ?thesis
  proof (cases a)
    case (Enter_addChunk c k can_throw)
    with step have "processing_units s' = processing_units s"
      by (auto simp: addChunk_enter_def rethrowBackgroundException_def Let_def
          split: if_splits option.splits)
    then show ?thesis by (simp add: cycle_step_refl)
  next
    case Claim
    with step obtain c k where g: "producer s = Passed c k" and s': "s' = addChunk_claim c k s"
      by (auto split: producer_pc.splits)
    from g pr b have "claimed_upto s \<le> writer_unit_number s"
      "writer_unit_number s < released_upto s + length (processing_units s)"
      by (auto simp: inv_producer_def claimed_upto_cases)
    with free have "status (unit_of s (writer_unit_number s)) = READY_TO_INSERT"
      by (auto simp: inv_free_def)
    then show ?thesis
      using ne unfolding s' addChunk_claim_def set_unit_def
      by (auto intro!: cycle_step_put simp: unit_of_def claimed_unit_def)
  next
    case Increment
    with step have "processing_units s' = processing_units s"
      by (auto simp: addChunk_increment_def split: producer_pc.splits)
    then show ?thesis by (simp add: cycle_step_refl)
  next
    case Submit
    with step have "processing_units s' = processing_units s"
      by (auto simp: addChunk_submit_def split: producer_pc.splits)
    then show ?thesis by (simp add: cycle_step_refl)
  next
    case (Submit_fails e)
    with step have "processing_units s' = processing_units s"
      by (auto simp: addChunk_submit_fails_def onBackgroundException_def Let_def
          split: producer_pc.splits)
    then show ?thesis by (simp add: cycle_step_refl)
  next
    case (Format t)
    with step obtain r where s': "s' = format_unit f t r s"
      by (auto split: option.splits task.splits)
    show ?thesis
      using ne unfolding s' format_unit_def Let_def set_unit_def
      by (auto intro!: cycle_step_put simp: unit_of_def formatted_unit_def Let_def)
  next
    case (Publish t)
    with step obtain r where g: "pool s t = Some (Formatted r)" and s': "s' = publish_unit t s"
      by (auto split: option.splits task.splits)
    with pl have "status (unit_of s t) = READY_TO_FORMAT"
      by (auto simp: inv_pool_def)
    then show ?thesis
      using ne unfolding s' publish_unit_def set_unit_def
      by (auto intro!: cycle_step_put simp: unit_of_def)
  next
    case (Fail t e)
    with step have "processing_units s' = processing_units s"
      by (auto simp: fail_unit_def onBackgroundException_def Let_def split: option.splits)
    then show ?thesis by (simp add: cycle_step_refl)
  next
    case Append
    with step have "processing_units s' = processing_units s"
      by (auto simp: collect_append_def Let_def split: if_splits ProcessingUnitType.splits)
    then show ?thesis by (simp add: cycle_step_refl)
  next
    case (Append_fails n e)
    with step have "processing_units s' = processing_units s"
      by (auto simp: collect_fails_def onBackgroundException_def Let_def split: if_splits)
    then show ?thesis by (simp add: cycle_step_refl)
  next
    case Stop
    with step have "processing_units s' = processing_units s"
      by (auto simp: collect_stop_def split: if_splits)
    then show ?thesis by (simp add: cycle_step_refl)
  next
    case Flush
    with step have "processing_units s' = processing_units s"
      by (auto simp: collect_flush_def split: if_splits)
    then show ?thesis by (simp add: cycle_step_refl)
  next
    case Release
    with step have g: "collector s = Flushed" and s': "s' = collect_release s"
      by (auto split: if_splits)
    with co have "status (unit_of s (collector_unit_number s)) = READY_TO_READ"
      by (auto simp: inv_collector_def)
    then show ?thesis
      using ne unfolding s' collect_release_def set_unit_def
      by (auto intro!: cycle_step_put simp: unit_of_def)
  next
    case Advance
    with step have "processing_units s' = processing_units s"
      by (auto simp: collect_increment_def split: if_splits)
    then show ?thesis by (simp add: cycle_step_refl)
  next
    case Call_flush
    with step have "processing_units s' = processing_units s"
      by (auto simp: flushImpl_def split: if_splits)
    then show ?thesis by (simp add: cycle_step_refl)
  next
    case (Call_statistics st)
    with step have "processing_units s' = processing_units s"
      by (auto simp: update_statistics_def split: if_splits)
    then show ?thesis by (simp add: cycle_step_refl)
  next
    case Cancel
    with step have "processing_units s' = processing_units s"
      by (auto simp: finishAndWait_stop_def)
    then show ?thesis by (simp add: cycle_step_refl)
  qed
qed

lemma run_snoc:
  "run f (as @ [a]) s0 = Some s' \<Longrightarrow> \<exists>s. run f as s0 = Some s \<and> fire f a s = Some s'"
proof (induction as arbitrary: s0)
  case Nil
  then show ?case by (cases "fire f a s0") simp_all
next
  case (Cons b bs)
  then show ?case by (cases "fire f b s0") simp_all
qed

lemma addChunk_is_run:
  assumes "addChunk r c k can_throw s = Return s'" "\<not> emergency_stop s" "producer s = Outside"
    "FINALIZE \<notin> fst ` set (tickets s)" "processing_units s \<noteq> []"
  shows "run f [Enter_addChunk c k can_throw, Claim, Increment, Submit] s = Some s'"
  using assms
  by (simp add: addChunk_def fire_def addChunk_enter_def addChunk_claim_def
      addChunk_increment_def addChunk_submit_def set_unit_def claimed_unit_def unit_of_def
      put_unit_def Let_def split: if_splits option.splits)

lemma addChunk_refused_is_run:
  assumes "addChunk (Some e) c k can_throw s = Throw e' s'" "\<not> emergency_stop s"
    "producer s = Outside" "FINALIZE \<notin> fst ` set (tickets s)" "processing_units s \<noteq> []"
  shows "run f [Enter_addChunk c k can_throw, Claim, Increment, Submit_fails e] s = Some s'"
  using assms
  by (auto simp: addChunk_def fire_def addChunk_enter_def addChunk_claim_def
      addChunk_increment_def addChunk_submit_fails_def onBackgroundException_def set_unit_def
      claimed_unit_def unit_of_def put_unit_def Let_def split: if_splits)

subsection \<open>Reachable states\<close>

lemma run_empty_ring:
  assumes "processing_units s = []" and "run f as s = Some s'"
  shows "s' = s"
  using assms by (cases as) (simp_all add: fire_def)

lemma reachable_inv:
  assumes "processing_units (construct p) \<noteq> []" and "run f as (start p) = Some s"
  shows "ring_inv f s"
  using start_inv [OF assms(1)] assms(2) by (rule run_preserves)

lemma reachable_cases:
  assumes "run f as (start p) = Some s"
  shows "s = start p \<and> processing_units (start p) = [] \<or> ring_inv f s"
proof (cases "processing_units (construct p) = []")
  case True
  then have "processing_units (start p) = []" by (simp add: start_fields)
  with assms run_empty_ring [of "start p" f as s] show ?thesis by simp
next
  case False
  with assms show ?thesis by (simp add: reachable_inv)
qed

subsection \<open>Totals and extremes\<close>




subsection \<open>The status of a slot\<close>

text \<open>
  Claim C7. A status is one of the three values of the enumeration. In every state that a
  run reaches, every step of any thread leaves the ring with the same slots, and each slot
  either keeps its status or moves to the next status of the cycle FREE, FORMATTING, READY,
  FREE: no step skips a stage. Every write of a status is one step of the run.
\<close>

theorem status_cycle:
  assumes "run f as (start p) = Some s" and "fire f a s = Some s'"
  shows "cycle_step (processing_units s) (processing_units s') \<and>
     (\<forall>u :: ProcessingUnit.
        status u = READY_TO_INSERT \<or> status u = READY_TO_FORMAT \<or> status u = READY_TO_READ)"
proof -
  have three: "status u = READY_TO_INSERT \<or> status u = READY_TO_FORMAT \<or> status u = READY_TO_READ"
    for u :: ProcessingUnit
    by (cases "status u") simp_all
  from assms(2) have ne: "processing_units s \<noteq> []" and st: "step f a s = Some s'"
    by (simp_all add: fire_def split: if_splits)
  with reachable_cases [OF assms(1)] have "ring_inv f s" by auto
  from step_cycle [OF this st] three show ?thesis by blast
qed

theorem status_cycle_witness:
  "\<exists>s s'. run bracket_formatter (enqueue (Chunk 1 [97]) PLAIN @ [Format 0])
            (start (params_of 1)) = Some s \<and>
     fire bracket_formatter (Publish 0) s = Some s' \<and>
     cycle_step (processing_units s) (processing_units s') \<and>
     map status (processing_units s) = [READY_TO_FORMAT, READY_TO_INSERT, READY_TO_INSERT] \<and>
     map status (processing_units s') = [READY_TO_READ, READY_TO_INSERT, READY_TO_INSERT]"
proof -
  have after: "map_option (\<lambda>s. map status (processing_units s))
      (run bracket_formatter ((enqueue (Chunk 1 [97]) PLAIN @ [Format 0]) @ [Publish 0])
         (start (params_of 1))) =
      Some [READY_TO_READ, READY_TO_INSERT, READY_TO_INSERT]"
    by code_simp
  then obtain s' where s': "run bracket_formatter
      ((enqueue (Chunk 1 [97]) PLAIN @ [Format 0]) @ [Publish 0]) (start (params_of 1)) = Some s'"
    and st': "map status (processing_units s') = [READY_TO_READ, READY_TO_INSERT, READY_TO_INSERT]"
    by (cases "run bracket_formatter
      ((enqueue (Chunk 1 [97]) PLAIN @ [Format 0]) @ [Publish 0]) (start (params_of 1))") auto
  from run_snoc [OF s'] obtain s where
    s: "run bracket_formatter (enqueue (Chunk 1 [97]) PLAIN @ [Format 0])
          (start (params_of 1)) = Some s"
    and step: "fire bracket_formatter (Publish 0) s = Some s'"
    by blast
  have "map_option (\<lambda>s. map status (processing_units s))
      (run bracket_formatter (enqueue (Chunk 1 [97]) PLAIN @ [Format 0]) (start (params_of 1))) =
      Some [READY_TO_FORMAT, READY_TO_INSERT, READY_TO_INSERT]"
    by code_simp
  with s have st: "map status (processing_units s) =
      [READY_TO_FORMAT, READY_TO_INSERT, READY_TO_INSERT]"
    by simp
  from status_cycle [OF s step]
  have cyc: "cycle_step (processing_units s) (processing_units s')"
    by simp
  show ?thesis
    using s step cyc st st' by (intro exI [of _ s] exI [of _ s'] conjI) assumption+
qed

subsection \<open>The bytes in the sink\<close>

lemma single_threaded_output_split:
  assumes "n < length ts"
  shows "single_threaded_output f ts =
     single_threaded_output f (take n ts) @ expected f (ts ! n) @
     single_threaded_output f (drop (Suc n) ts)"
proof -
  have "ts = take n ts @ ts ! n # drop (Suc n) ts"
    using assms by (simp add: id_take_nth_drop)
  then have "single_threaded_output f ts =
      single_threaded_output f (take n ts @ ts ! n # drop (Suc n) ts)"
    by simp
  then show ?thesis
    by (simp add: single_threaded_output_def)
qed

lemma single_threaded_output_take:
  "single_threaded_output f ts =
     single_threaded_output f (take n ts) @ single_threaded_output f (drop n ts)"
  by (metis append_take_drop_id concat_append map_append single_threaded_output_def)

text \<open>
  Claim C1. In every state that a run reaches, for every inner formatter, every
  configuration (every number of worker threads, every ring size) and every interleaving
  of the producer, the formatter tasks and the collector: the sink holds a prefix of the
  output of a single-threaded formatter over the tickets in the order they were submitted;
  while the collector runs it holds exactly the bytes of the tickets appended so far, ticket
  after ticket, so no byte of ticket \<open>t + 1\<close> precedes a byte of ticket \<open>t\<close>; and once the
  FINALIZE ticket is collected it is the whole single-threaded output.
\<close>

theorem sink_is_single_threaded_output:
  assumes "run f as (start p) = Some s"
  shows "(\<exists>rest. single_threaded_output f (tickets s) = out s @ rest) \<and>
     (collector s \<noteq> Exited \<longrightarrow>
        out s = single_threaded_output f (take (appended_upto s) (tickets s))) \<and>
     (collected_finalize s \<longrightarrow> out s = single_threaded_output f (tickets s))"
  using reachable_cases [OF assms]
proof
  assume "s = start p \<and> processing_units (start p) = []"
  then have "out s = []" "tickets s = []" "\<not> collected_finalize s"
    by (simp_all add: start_fields)
  then show ?thesis by (simp add: single_threaded_output_def)
next
  assume inv: "ring_inv f s"
  note b = ring_invD(1) [OF inv] and co = ring_invD(6) [OF inv] and ou = ring_invD(7) [OF inv]
    and fi = ring_invD(8) [OF inv]
  from ou obtain q where q: "out s = single_threaded_output f (take (appended_upto s) (tickets s)) @ q"
    and torn: "torn f s q"
    by (auto simp: inv_out_def)
  have 1: "\<exists>rest. single_threaded_output f (tickets s) = out s @ rest"
  proof (cases "q = []")
    case True
    with q single_threaded_output_take [of f "tickets s" "appended_upto s"] show ?thesis
      by simp
  next
    case False
    with torn obtain n where t: "collector s = Exited" "\<not> collected_finalize s"
      "collector_unit_number s < length (tickets s)"
      "q = take n (expected f (tickets s ! collector_unit_number s))"
      by (auto simp: torn_def)
    then have "appended_upto s = collector_unit_number s"
      by (simp add: appended_upto_cases)
    with q t single_threaded_output_split [of "collector_unit_number s" "tickets s" f]
    have "single_threaded_output f (tickets s) =
        out s @ drop n (expected f (tickets s ! collector_unit_number s)) @
        single_threaded_output f (drop (Suc (collector_unit_number s)) (tickets s))"
      by (simp add: append_eq_append_conv2) (metis append_take_drop_id append.assoc)
    then show ?thesis by blast
  qed
  have 2: "out s = single_threaded_output f (take (appended_upto s) (tickets s))"
    if "collector s \<noteq> Exited"
    using q torn that by (auto simp: torn_def)
  have 3: "out s = single_threaded_output f (tickets s)" if "collected_finalize s"
  proof -
    from co that have c: "collector s = Exited" "collector_unit_number s < claimed_upto s"
      "fst (tickets s ! collector_unit_number s) = FINALIZE"
      by (auto simp: inv_collector_def)
    with b have "collector_unit_number s < length (tickets s)"
      by (simp add: inv_bounds_def)
    with fi c have "Suc (collector_unit_number s) = length (tickets s)"
      by (auto simp: inv_finalize_def)
    moreover from c that have "appended_upto s = Suc (collector_unit_number s)"
      by (simp add: appended_upto_cases)
    moreover from torn that have "q = []" by (auto simp: torn_def)
    ultimately show ?thesis using q by simp
  qed
  from 1 2 3 show ?thesis by blast
qed

theorem sink_is_single_threaded_output_witness:
  "\<exists>s. run bracket_formatter scenario_S1 (start (params_of 1)) = Some s \<and>
     collected_finalize s \<and>
     out s = single_threaded_output bracket_formatter (tickets s) \<and>
     out s = [91, 97, 93, 91, 98, 93, 91, 99, 93]"
proof -
  have "map_option (\<lambda>s. (out s, collected_finalize s))
      (run bracket_formatter scenario_S1 (start (params_of 1))) =
      Some ([91, 97, 93, 91, 98, 93, 91, 99, 93], True)"
    by code_simp
  then obtain s where s: "run bracket_formatter scenario_S1 (start (params_of 1)) = Some s"
    and o: "out s = [91, 97, 93, 91, 98, 93, 91, 99, 93]" "collected_finalize s"
    by (cases "run bracket_formatter scenario_S1 (start (params_of 1))") auto
  from sink_is_single_threaded_output [OF s] o
  have eq: "out s = single_threaded_output bracket_formatter (tickets s)"
    by simp
  from o eq have "[91, 97, 93, 91, 98, 93, 91, 99, 93] =
      single_threaded_output bracket_formatter (tickets s)"
    by simp
  with s o eq show ?thesis
    by (intro exI [of _ s] conjI) simp_all
qed

end
